theory Spec2Isabelle
  imports Main
begin

section \<open>Recursive binary search tree\<close>

text \<open>
  \<^verbatim>\<open>data_structures/binary_tree/binary_search_tree_recursive.py\<close>.
  A reference to a \<^verbatim>\<open>Node\<close> object, or \<^verbatim>\<open>None\<close>, is a tree: every node has a
  single owner, so a node and the subtree it owns are the same thing. The fields of
  \<^verbatim>\<open>Node\<close> are \<^verbatim>\<open>data\<close>, \<^verbatim>\<open>left\<close> and \<^verbatim>\<open>right\<close>, in that order.
  Keys are compared with \<^verbatim>\<open><\<close>, \<^verbatim>\<open>>\<close> and \<^verbatim>\<open>==\<close>: a linear order.
\<close>

datatype 'a bst = Absent | Node 'a "'a bst" "'a bst"

text \<open>What Python raises: reading \<^verbatim>\<open>.left\<close> of \<^verbatim>\<open>None\<close>, the argument check of
  the Bell number functions, and a list index out of range.\<close>

datatype error = AttributeError | ValueError | IndexError

text \<open>\<^verbatim>\<open>BinarySearchTree.insert(root, data)\<close>: the returned reference.\<close>

fun insert_bst :: "'a::linorder bst \<Rightarrow> 'a \<Rightarrow> 'a bst" where
  "insert_bst Absent x = Node x Absent Absent"
| "insert_bst (Node d l r) x =
     (if x < d then Node d (insert_bst l x) r
      else if x > d then Node d l (insert_bst r x)
      else Node d l r)"

text \<open>\<^verbatim>\<open>BinarySearchTree.search(root, key)\<close>.\<close>

fun search :: "'a::linorder bst \<Rightarrow> 'a \<Rightarrow> bool" where
  "search Absent key = False"
| "search (Node d l r) key =
     (if key = d then True
      else if key < d then search l key
      else search r key)"

text \<open>\<^verbatim>\<open>BinarySearchTree.inorder(root)\<close>: the values printed, in the order printed.\<close>

fun inorder :: "'a bst \<Rightarrow> 'a list" where
  "inorder Absent = []"
| "inorder (Node d l r) = inorder l @ d # inorder r"

text \<open>\<^verbatim>\<open>BinarySearchTree._min_value(node)\<close>: the loop \<^verbatim>\<open>while current.left\<close> follows
  left references; on \<^verbatim>\<open>None\<close> the first \<^verbatim>\<open>current.left\<close> raises.\<close>

fun min_value :: "'a bst \<Rightarrow> error + 'a" where
  "min_value Absent = Inl AttributeError"
| "min_value (Node d l r) = (if l \<noteq> Absent then min_value l else Inr d)"

text \<open>\<^verbatim>\<open>BinarySearchTree.delete(root, key)\<close>: the returned reference, or the exception
  that a call inside it raised.\<close>

fun delete :: "'a::linorder bst \<Rightarrow> 'a \<Rightarrow> error + 'a bst" where
  "delete Absent key = Inr Absent"
| "delete (Node d l r) key =
     (if key < d then
        (case delete l key of Inl e \<Rightarrow> Inl e | Inr l' \<Rightarrow> Inr (Node d l' r))
      else if key > d then
        (case delete r key of Inl e \<Rightarrow> Inl e | Inr r' \<Rightarrow> Inr (Node d l r'))
      else if l = Absent then Inr r
      else if r = Absent then Inr l
      else
        (case min_value r of
           Inl e \<Rightarrow> Inl e
         | Inr m \<Rightarrow>
             (case delete r m of Inl e \<Rightarrow> Inl e | Inr r' \<Rightarrow> Inr (Node m l r'))))"

text \<open>The caller's pattern \<^verbatim>\<open>root = bst.insert(root, value)\<close> and
  \<^verbatim>\<open>root = bst.delete(root, key)\<close> of \<^verbatim>\<open>binary_search_tree_example\<close>, for any
  sequence of the two operations.\<close>

datatype 'a op = Insert 'a | Delete 'a

fun apply_op :: "'a::linorder bst \<Rightarrow> 'a op \<Rightarrow> error + 'a bst" where
  "apply_op root (Insert x) = Inr (insert_bst root x)"
| "apply_op root (Delete x) = delete root x"

fun apply_ops :: "'a::linorder bst \<Rightarrow> 'a op list \<Rightarrow> error + 'a bst" where
  "apply_ops root [] = Inr root"
| "apply_ops root (c # cs) =
     (case apply_op root c of Inl e \<Rightarrow> Inl e | Inr root' \<Rightarrow> apply_ops root' cs)"

subsection \<open>The objects of \<^verbatim>\<open>delete\<close> and \<^verbatim>\<open>_min_value\<close>\<close>

text \<open>
  \<^verbatim>\<open>delete\<close> writes to the fields of existing \<^verbatim>\<open>Node\<close> objects and returns
  references to them. To say which object a call returns, the two functions are also
  modelled on a store: a reference is an address or \<^verbatim>\<open>None\<close>, the store gives the three
  fields of the object at every address, and \<^verbatim>\<open>delete\<close> returns the store it leaves
  together with the reference it returns. The object graph of a store need not be a
  tree, so the loop of \<^verbatim>\<open>_min_value\<close> and the recursion of \<^verbatim>\<open>delete\<close> run on fuel:
  the result \<open>None\<close> means that the fuel ran out before the call returned.
\<close>

type_synonym ref = "nat option"

record 'a node =
  data :: 'a
  left :: ref
  right :: ref

type_synonym 'a heap = "nat \<Rightarrow> 'a node"

text \<open>\<^verbatim>\<open>_min_value(node)\<close> on the store: one unit of fuel for every test of
  \<^verbatim>\<open>current.left\<close>.\<close>

fun min_value_h :: "nat \<Rightarrow> 'a heap \<Rightarrow> ref \<Rightarrow> (error + 'a) option" where
  "min_value_h 0 h current = None"
| "min_value_h (Suc fuel) h None = Some (Inl AttributeError)"
| "min_value_h (Suc fuel) h (Some a) =
     (if left (h a) \<noteq> None then min_value_h fuel h (left (h a))
      else Some (Inr (data (h a))))"

text \<open>\<^verbatim>\<open>delete(root, key)\<close> on the store. \<^verbatim>\<open>root.left = self.delete(root.left, key)\<close>
  runs the call and then writes the field of \<^verbatim>\<open>root\<close> in the store the call left;
  \<^verbatim>\<open>root.data = self._min_value(root.right)\<close> writes \<^verbatim>\<open>data\<close> before
  \<^verbatim>\<open>root.right\<close> and \<^verbatim>\<open>root.data\<close> are read for the recursive call.\<close>

fun delete_h :: "nat \<Rightarrow> 'a::linorder heap \<Rightarrow> ref \<Rightarrow> 'a \<Rightarrow> (error + 'a heap \<times> ref) option" where
  "delete_h 0 h root key = None"
| "delete_h (Suc fuel) h None key = Some (Inr (h, None))"
| "delete_h (Suc fuel) h (Some a) key =
     (if key < data (h a) then
        (case delete_h fuel h (left (h a)) key of
           None \<Rightarrow> None
         | Some (Inl e) \<Rightarrow> Some (Inl e)
         | Some (Inr (h1, p)) \<Rightarrow> Some (Inr (h1(a := (h1 a)\<lparr>left := p\<rparr>), Some a)))
      else if key > data (h a) then
        (case delete_h fuel h (right (h a)) key of
           None \<Rightarrow> None
         | Some (Inl e) \<Rightarrow> Some (Inl e)
         | Some (Inr (h1, p)) \<Rightarrow> Some (Inr (h1(a := (h1 a)\<lparr>right := p\<rparr>), Some a)))
      else if left (h a) = None then Some (Inr (h, right (h a)))
      else if right (h a) = None then Some (Inr (h, left (h a)))
      else
        (case min_value_h fuel h (right (h a)) of
           None \<Rightarrow> None
         | Some (Inl e) \<Rightarrow> Some (Inl e)
         | Some (Inr m) \<Rightarrow>
             (let h1 = h(a := (h a)\<lparr>data := m\<rparr>) in
              case delete_h fuel h1 (right (h1 a)) (data (h1 a)) of
                None \<Rightarrow> None
              | Some (Inl e) \<Rightarrow> Some (Inl e)
              | Some (Inr (h2, p)) \<Rightarrow> Some (Inr (h2(a := (h2 a)\<lparr>right := p\<rparr>), Some a)))))"

section \<open>Bell numbers\<close>

text \<open>\<^verbatim>\<open>maths/bell_numbers.py\<close>. Python's integers are unbounded: \<open>int\<close>.\<close>

text \<open>Python's \<^verbatim>\<open>xs[i]\<close> and \<^verbatim>\<open>xs[i] = v\<close> on a list: a negative index counts from the
  end, an index outside the list raises \<^verbatim>\<open>IndexError\<close>.\<close>

definition getitem :: "'a list \<Rightarrow> int \<Rightarrow> error + 'a" where
  "getitem xs i =
     (let n = int (length xs); k = (if i < 0 then n + i else i)
      in if 0 \<le> k \<and> k < n then Inr (xs ! nat k) else Inl IndexError)"

definition setitem :: "'a list \<Rightarrow> int \<Rightarrow> 'a \<Rightarrow> error + 'a list" where
  "setitem xs i v =
     (let n = int (length xs); k = (if i < 0 then n + i else i)
      in if 0 \<le> k \<and> k < n then Inr (xs[nat k := v]) else Inl IndexError)"

text \<open>Sequencing: the first exception raised ends the computation.\<close>

definition and_then :: "error + 'a \<Rightarrow> ('a \<Rightarrow> error + 'b) \<Rightarrow> error + 'b" where
  "and_then m f = (case m of Inl e \<Rightarrow> Inl e | Inr x \<Rightarrow> f x)"

text \<open>\<^verbatim>\<open>tbl[i][j]\<close> and \<^verbatim>\<open>tbl[i][j] = v\<close> on a list of rows. The rows are distinct list
  objects (the comprehension builds a new row for every \<^verbatim>\<open>_\<close>), so writing to a row changes
  that row of the table only.\<close>

definition get_cell :: "'a list list \<Rightarrow> int \<Rightarrow> int \<Rightarrow> error + 'a" where
  "get_cell tbl i j = and_then (getitem tbl i) (\<lambda>row. getitem row j)"

definition set_cell :: "'a list list \<Rightarrow> int \<Rightarrow> int \<Rightarrow> 'a \<Rightarrow> error + 'a list list" where
  "set_cell tbl i j v =
     and_then (getitem tbl i) (\<lambda>row.
     and_then (setitem row j v) (\<lambda>row'.
     setitem tbl i row'))"

text \<open>\<^verbatim>\<open>range(a, b)\<close>, and a \<^verbatim>\<open>for\<close> loop over a list of indices that threads the table
  through its body.\<close>

definition range_py :: "int \<Rightarrow> int \<Rightarrow> int list" where
  "range_py a b = [a..b - 1]"

fun for_each :: "'i list \<Rightarrow> ('i \<Rightarrow> 's \<Rightarrow> error + 's) \<Rightarrow> 's \<Rightarrow> error + 's" where
  "for_each [] body s = Inr s"
| "for_each (i # rest) body s = and_then (body i s) (for_each rest body)"

text \<open>\<^verbatim>\<open>[[0 for _ in range(n + 1)] for _ in range(n + 1)]\<close>.\<close>

definition zeros :: "int \<Rightarrow> int list list" where
  "zeros n = replicate (nat (n + 1)) (replicate (nat (n + 1)) 0)"

text \<open>\<^verbatim>\<open>bell_number(n)\<close>: the body of the inner loop,
  \<^verbatim>\<open>bell[i][j] = bell[i - 1][j - 1] + bell[i][j - 1]\<close>; the body of the outer loop; the function.\<close>

definition bell_inner :: "int \<Rightarrow> int \<Rightarrow> int list list \<Rightarrow> error + int list list" where
  "bell_inner i j bell =
     and_then (get_cell bell (i - 1) (j - 1)) (\<lambda>x.
     and_then (get_cell bell i (j - 1)) (\<lambda>y.
     set_cell bell i j (x + y)))"

definition bell_outer :: "int \<Rightarrow> int list list \<Rightarrow> error + int list list" where
  "bell_outer i bell =
     and_then (get_cell bell (i - 1) (i - 1)) (\<lambda>x.
     and_then (set_cell bell i 0 x) (\<lambda>bell'.
     for_each (range_py 1 (i + 1)) (bell_inner i) bell'))"

definition bell_number :: "int \<Rightarrow> error + int" where
  "bell_number n =
     (if n < 0 then Inl ValueError
      else if n = 0 then Inr 1
      else
        and_then (set_cell (zeros n) 0 0 1) (\<lambda>bell.
        and_then (for_each (range_py 1 (n + 1)) bell_outer bell) (\<lambda>bell'.
        get_cell bell' n 0)))"

text \<open>\<^verbatim>\<open>bell_number_sum(n)\<close>: the body of the loop of base cases; the body of the inner loop,
  \<^verbatim>\<open>stirling[i][j] = j * stirling[i - 1][j] + stirling[i - 1][j - 1]\<close>; the outer loop's
  body; the function, which returns \<^verbatim>\<open>sum(stirling[n])\<close>.\<close>

definition stirling_base :: "int \<Rightarrow> int list list \<Rightarrow> error + int list list" where
  "stirling_base i stirling =
     and_then (set_cell stirling i 0 0) (\<lambda>stirling'.
     set_cell stirling' 0 i 0)"

definition stirling_inner :: "int \<Rightarrow> int \<Rightarrow> int list list \<Rightarrow> error + int list list" where
  "stirling_inner i j stirling =
     and_then (get_cell stirling (i - 1) j) (\<lambda>x.
     and_then (get_cell stirling (i - 1) (j - 1)) (\<lambda>y.
     set_cell stirling i j (j * x + y)))"

definition stirling_outer :: "int \<Rightarrow> int list list \<Rightarrow> error + int list list" where
  "stirling_outer i stirling = for_each (range_py 1 (i + 1)) (stirling_inner i) stirling"

definition bell_number_sum :: "int \<Rightarrow> error + int" where
  "bell_number_sum n =
     (if n < 0 then Inl ValueError
      else if n = 0 then Inr 1
      else
        and_then (for_each (range_py 0 (n + 1)) stirling_base (zeros n)) (\<lambda>s1.
        and_then (set_cell s1 0 0 1) (\<lambda>s2.
        and_then (for_each (range_py 1 (n + 1)) stirling_outer s2) (\<lambda>s3.
        and_then (getitem s3 n) (\<lambda>row.
        Inr (sum_list row))))))"

section \<open>Definitions for the properties\<close>

subsection \<open>The ordering invariant and the counts of the size property\<close>

text \<open>The invariant of the data model: at every node, the values of the left subtree are
  strictly less than the node's value and the values of the right subtree strictly greater.\<close>

fun bst_ok :: "'a::linorder bst \<Rightarrow> bool" where
  "bst_ok Absent = True"
| "bst_ok (Node d l r) =
     ((\<forall>x \<in> set (inorder l). x < d) \<and> (\<forall>y \<in> set (inorder r). d < y) \<and> bst_ok l \<and> bst_ok r)"

text \<open>The values of the insert operations of a sequence, in order; the number of delete
  operations whose key is in the tree when the operation runs; the number of insert
  operations whose value is not in the tree when the operation runs.\<close>

fun inserted_values :: "'a op list \<Rightarrow> 'a list" where
  "inserted_values [] = []"
| "inserted_values (Insert x # cs) = x # inserted_values cs"
| "inserted_values (Delete x # cs) = inserted_values cs"

fun present_deletes :: "'a::linorder bst \<Rightarrow> 'a op list \<Rightarrow> nat" where
  "present_deletes root [] = 0"
| "present_deletes root (c # cs) =
     (case c of Delete x \<Rightarrow> if x \<in> set (inorder root) then 1 else 0 | Insert x \<Rightarrow> 0) +
     (case apply_op root c of Inl e \<Rightarrow> 0 | Inr root' \<Rightarrow> present_deletes root' cs)"

fun absent_inserts :: "'a::linorder bst \<Rightarrow> 'a op list \<Rightarrow> nat" where
  "absent_inserts root [] = 0"
| "absent_inserts root (c # cs) =
     (case c of Insert x \<Rightarrow> if x \<in> set (inorder root) then 0 else 1 | Delete x \<Rightarrow> 0) +
     (case apply_op root c of Inl e \<Rightarrow> 0 | Inr root' \<Rightarrow> absent_inserts root' cs)"

subsection \<open>Trees in the store\<close>

text \<open>\<open>cells h p t\<close> is the list of the addresses of the objects that hold the tree \<open>t\<close>
  at the reference \<open>p\<close> of the store \<open>h\<close>, in inorder, when the fields of these objects
  spell out \<open>t\<close>. The store holds \<open>t\<close> at \<open>p\<close> as a tree when no address occurs twice:
  every node has one owner.\<close>

fun cells :: "'a heap \<Rightarrow> ref \<Rightarrow> 'a bst \<Rightarrow> nat list option" where
  "cells h None Absent = Some []"
| "cells h (Some a) Absent = None"
| "cells h None (Node d l r) = None"
| "cells h (Some a) (Node d l r) =
     (if data (h a) = d then
        (case cells h (left (h a)) l of
           None \<Rightarrow> None
         | Some xs \<Rightarrow>
             (case cells h (right (h a)) r of
                None \<Rightarrow> None
              | Some ys \<Rightarrow> Some (xs @ a # ys)))
      else None)"

definition tree_at :: "'a heap \<Rightarrow> ref \<Rightarrow> 'a bst \<Rightarrow> bool" where
  "tree_at h p t = (case cells h p t of None \<Rightarrow> False | Some as \<Rightarrow> distinct as)"

text \<open>A store with the tree 50 (40) (70 (60) ()) at address 1.\<close>

definition example_heap :: "int heap" where
  "example_heap =
     (\<lambda>_. \<lparr>data = 0, left = None, right = None\<rparr>)
       (1 := \<lparr>data = 50, left = Some 2, right = Some 3\<rparr>,
        2 := \<lparr>data = 40, left = None, right = None\<rparr>,
        3 := \<lparr>data = 70, left = Some 4, right = None\<rparr>,
        4 := \<lparr>data = 60, left = None, right = None\<rparr>)"

subsection \<open>The two recurrences and the invariants of the tables\<close>

text \<open>The recurrences the two functions tabulate: the Stirling numbers of the second kind,
  \<open>S(n, k) = k * S(n - 1, k) + S(n - 1, k - 1)\<close>, and the Bell triangle, whose rows start
  with the last entry of the row before. Their sum over a row is the Bell number.\<close>

fun stirling2 :: "nat \<Rightarrow> nat \<Rightarrow> nat" where
  "stirling2 0 0 = 1"
| "stirling2 0 (Suc k) = 0"
| "stirling2 (Suc n) 0 = 0"
| "stirling2 (Suc n) (Suc k) = Suc k * stirling2 n (Suc k) + stirling2 n k"

fun bell_triangle :: "nat \<Rightarrow> nat \<Rightarrow> nat" where
  "bell_triangle 0 0 = 1"
| "bell_triangle 0 (Suc j) = 0"
| "bell_triangle (Suc i) 0 = bell_triangle i i"
| "bell_triangle (Suc i) (Suc j) = bell_triangle i j + bell_triangle (Suc i) j"

definition stirling_sum :: "nat \<Rightarrow> nat" where
  "stirling_sum n = (\<Sum>k\<le>n. stirling2 n k)"

text \<open>A table of \<open>N + 1\<close> rows of \<open>N + 1\<close> entries, and the table after the write
  \<^verbatim>\<open>tbl[r][c] = v\<close>.\<close>

definition shape :: "nat \<Rightarrow> 'a list list \<Rightarrow> bool" where
  "shape N tbl \<longleftrightarrow> length tbl = Suc N \<and> (\<forall>r \<le> N. length (tbl ! r) = Suc N)"

definition upd :: "'a list list \<Rightarrow> nat \<Rightarrow> nat \<Rightarrow> 'a \<Rightarrow> 'a list list" where
  "upd tbl r c v = tbl[r := (tbl ! r)[c := v]]"

text \<open>The loop invariants of \<^verbatim>\<open>bell_number\<close>: rows \<open>0..k\<close> hold the Bell triangle; rows
  before \<open>i\<close> and the entries \<open>0..m\<close> of row \<open>i\<close> hold it.\<close>

definition bell_rows :: "nat \<Rightarrow> nat \<Rightarrow> int list list \<Rightarrow> bool" where
  "bell_rows N k tbl \<longleftrightarrow>
     shape N tbl \<and> (\<forall>r \<le> k. \<forall>c \<le> r. tbl ! r ! c = int (bell_triangle r c))"

definition bell_partial :: "nat \<Rightarrow> nat \<Rightarrow> nat \<Rightarrow> int list list \<Rightarrow> bool" where
  "bell_partial N i m tbl \<longleftrightarrow>
     shape N tbl \<and> (\<forall>r < i. \<forall>c \<le> r. tbl ! r ! c = int (bell_triangle r c)) \<and>
     (\<forall>c \<le> m. tbl ! i ! c = int (bell_triangle i c))"

text \<open>The loop invariants of \<^verbatim>\<open>bell_number_sum\<close>: rows \<open>0..k\<close> hold the Stirling numbers
  and every other entry is 0.\<close>

definition stirling_rows :: "nat \<Rightarrow> nat \<Rightarrow> int list list \<Rightarrow> bool" where
  "stirling_rows N k tbl \<longleftrightarrow>
     shape N tbl \<and>
     (\<forall>r \<le> N. \<forall>c \<le> N. tbl ! r ! c = (if r \<le> k then int (stirling2 r c) else 0))"

definition stirling_partial :: "nat \<Rightarrow> nat \<Rightarrow> nat \<Rightarrow> int list list \<Rightarrow> bool" where
  "stirling_partial N i m tbl \<longleftrightarrow>
     shape N tbl \<and>
     (\<forall>r \<le> N. \<forall>c \<le> N. tbl ! r ! c =
        (if r < i \<or> (r = i \<and> c \<le> m) then int (stirling2 r c) else 0))"

section \<open>Verification of the binary search tree\<close>

subsection \<open>Auxiliary facts\<close>

lemma set_inorder_insert: "set (inorder (insert_bst t x)) = insert x (set (inorder t))"
  by (induction t) auto

lemma bst_ok_insert: "bst_ok t \<Longrightarrow> bst_ok (insert_bst t x)"
  by (induction t) (auto simp: set_inorder_insert)

lemma inorder_empty_iff: "inorder t = [] \<longleftrightarrow> t = Absent"
  by (cases t) auto

lemma min_value_leftmost: "t \<noteq> Absent \<Longrightarrow> min_value t = Inr (hd (inorder t))"
  by (induction t) (auto simp: inorder_empty_iff)

lemma bst_ok_sorted: "bst_ok t \<longleftrightarrow> sorted_wrt (<) (inorder t)"
  by (induction t) (auto simp: sorted_wrt_append intro: less_trans)

lemma bst_ok_distinct: "bst_ok t \<Longrightarrow> distinct (inorder t)"
  by (simp add: bst_ok_sorted strict_sorted_iff)

lemma hd_sorted_least: "sorted_wrt (<) xs \<Longrightarrow> y \<in> set xs \<Longrightarrow> hd xs \<le> (y::'a::linorder)"
  by (cases xs) auto

lemma search_iff: "bst_ok t \<Longrightarrow> search t k \<longleftrightarrow> k \<in> set (inorder t)"
  by (induction t) auto

lemma delete_total: "\<exists>t'. delete t k = Inr t'"
proof (induction t arbitrary: k)
  case Absent
  show ?case by simp
next
  case (Node d l r)
  obtain l' where l': "delete l k = Inr l'" using Node.IH(1) by blast
  obtain r' where r': "delete r k = Inr r'" using Node.IH(2) by blast
  show ?case
  proof (cases "l \<noteq> Absent \<and> r \<noteq> Absent \<and> k = d")
    case True
    then have m: "min_value r = Inr (hd (inorder r))" by (simp add: min_value_leftmost)
    obtain r'' where "delete r (hd (inorder r)) = Inr r''" using Node.IH(2) by blast
    with True m show ?thesis by simp
  next
    case False
    with l' r' show ?thesis by auto
  qed
qed

lemma delete_sound:
  "bst_ok t \<Longrightarrow> delete t k = Inr t' \<Longrightarrow> bst_ok t' \<and> set (inorder t') = set (inorder t) - {k}"
proof (induction t arbitrary: k t')
  case Absent
  then show ?case by simp
next
  case (Node d l r)
  from Node.prems(1) have okl: "bst_ok l" and okr: "bst_ok r"
    and lt: "\<forall>x \<in> set (inorder l). x < d" and gt: "\<forall>y \<in> set (inorder r). d < y"
    by auto
  consider (L) "k < d" | (R) "d < k" | (E) "k = d" by force
  then show ?case
  proof cases
    case L
    obtain l' where l': "delete l k = Inr l'" using delete_total by blast
    from Node.IH(1)[OF okl l'] have "bst_ok l'" "set (inorder l') = set (inorder l) - {k}" by auto
    moreover from L l' Node.prems(2) have "t' = Node d l' r" by simp
    ultimately show ?thesis using L okr lt gt by auto
  next
    case R
    obtain r' where r': "delete r k = Inr r'" using delete_total by blast
    from Node.IH(2)[OF okr r'] have "bst_ok r'" "set (inorder r') = set (inorder r) - {k}" by auto
    moreover from R have "\<not> k < d" by simp
    with R r' Node.prems(2) have "t' = Node d l r'" by simp
    ultimately show ?thesis using R okl lt gt by auto
  next
    case E
    show ?thesis
    proof (cases "l = Absent \<or> r = Absent")
      case True
      with E Node.prems(2) have "(l = Absent \<and> t' = r) \<or> (r = Absent \<and> t' = l)"
        by (auto split: if_splits)
      then show ?thesis using E okl okr lt gt by auto
    next
      case False
      define m where "m = hd (inorder r)"
      from False have mv: "min_value r = Inr m" by (simp add: min_value_leftmost m_def)
      obtain r' where r': "delete r m = Inr r'" using delete_total by blast
      from Node.IH(2)[OF okr r'] have okr': "bst_ok r'"
        and setr': "set (inorder r') = set (inorder r) - {m}" by auto
      from False have "inorder r \<noteq> []" by (simp add: inorder_empty_iff)
      then have min: "m \<in> set (inorder r)" by (simp add: m_def)
      have least: "\<forall>y \<in> set (inorder r). m \<le> y"
        using okr hd_sorted_least by (auto simp: bst_ok_sorted m_def)
      from E False mv r' Node.prems(2) have t': "t' = Node m l r'" by simp
      have "bst_ok t'" using t' okl okr' lt gt min least setr' by fastforce
      moreover have "set (inorder t') = set (inorder (Node d l r)) - {k}"
        using t' E lt gt min setr' by auto
      ultimately show ?thesis by simp
    qed
  qed
qed

lemma apply_op_total: "\<exists>t'. apply_op t c = Inr t'"
  by (cases c) (simp_all add: delete_total)

lemma apply_op_ok: "bst_ok t \<Longrightarrow> apply_op t c = Inr t' \<Longrightarrow> bst_ok t'"
  by (cases c) (auto simp: bst_ok_insert dest: delete_sound)

lemma apply_op_set:
  "bst_ok t \<Longrightarrow> apply_op t c = Inr t' \<Longrightarrow>
   set (inorder t') = (case c of Insert x \<Rightarrow> insert x (set (inorder t)) | Delete x \<Rightarrow> set (inorder t) - {x})"
  by (cases c) (auto simp: set_inorder_insert dest: delete_sound)

lemma apply_ops_total: "\<exists>t'. apply_ops t cs = Inr t'"
proof (induction cs arbitrary: t)
  case Nil
  show ?case by simp
next
  case (Cons c cs)
  obtain t1 where "apply_op t c = Inr t1" using apply_op_total by blast
  with Cons.IH[of t1] show ?case by simp
qed

lemma apply_ops_ok: "bst_ok t \<Longrightarrow> apply_ops t cs = Inr t' \<Longrightarrow> bst_ok t'"
proof (induction cs arbitrary: t)
  case Nil
  then show ?case by simp
next
  case (Cons c cs)
  obtain t1 where t1: "apply_op t c = Inr t1" using apply_op_total by blast
  with Cons.prems(2) have "apply_ops t1 cs = Inr t'" by simp
  moreover have "bst_ok t1" using apply_op_ok[OF Cons.prems(1) t1] .
  ultimately show ?case using Cons.IH by blast
qed

lemma apply_ops_append:
  "apply_ops t (xs @ ys) = (case apply_ops t xs of Inl e \<Rightarrow> Inl e | Inr t1 \<Rightarrow> apply_ops t1 ys)"
  by (induction xs arbitrary: t) (auto split: sum.splits)

lemma apply_ops_keeps:
  "bst_ok t \<Longrightarrow> apply_ops t cs = Inr t' \<Longrightarrow> v \<in> set (inorder t) \<Longrightarrow> Delete v \<notin> set cs \<Longrightarrow>
   v \<in> set (inorder t')"
proof (induction cs arbitrary: t)
  case Nil
  then show ?case by simp
next
  case (Cons c cs)
  obtain t1 where t1: "apply_op t c = Inr t1" using apply_op_total by blast
  with Cons.prems(2) have run: "apply_ops t1 cs = Inr t'" by simp
  have ok1: "bst_ok t1" using apply_op_ok[OF Cons.prems(1) t1] .
  have "v \<in> set (inorder t1)"
    using apply_op_set[OF Cons.prems(1) t1] Cons.prems(3,4) by (cases c) auto
  with Cons.IH[OF ok1 run] Cons.prems(4) show ?case by simp
qed

lemma apply_ops_never:
  "bst_ok t \<Longrightarrow> apply_ops t cs = Inr t' \<Longrightarrow> v \<notin> set (inorder t) \<Longrightarrow> Insert v \<notin> set cs \<Longrightarrow>
   v \<notin> set (inorder t')"
proof (induction cs arbitrary: t)
  case Nil
  then show ?case by simp
next
  case (Cons c cs)
  obtain t1 where t1: "apply_op t c = Inr t1" using apply_op_total by blast
  with Cons.prems(2) have run: "apply_ops t1 cs = Inr t'" by simp
  have ok1: "bst_ok t1" using apply_op_ok[OF Cons.prems(1) t1] .
  have "v \<notin> set (inorder t1)"
    using apply_op_set[OF Cons.prems(1) t1] Cons.prems(3,4) by (cases c) auto
  with Cons.IH[OF ok1 run] Cons.prems(4) show ?case by simp
qed

lemma count_general:
  "bst_ok root \<Longrightarrow> apply_ops root cs = Inr t \<Longrightarrow>
   length (inorder t) + present_deletes root cs = length (inorder root) + absent_inserts root cs"
proof (induction cs arbitrary: root)
  case Nil
  then show ?case by simp
next
  case (Cons c cs)
  obtain t1 where t1: "apply_op root c = Inr t1" using apply_op_total by blast
  with Cons.prems(2) have run: "apply_ops t1 cs = Inr t" by simp
  have ok1: "bst_ok t1" using apply_op_ok[OF Cons.prems(1) t1] .
  note IH = Cons.IH[OF ok1 run]
  have len: "length (inorder u) = card (set (inorder u))" if "bst_ok u" for u :: "'a bst"
    using that by (simp add: bst_ok_distinct distinct_card)
  have step: "length (inorder t1) + (case c of Delete x \<Rightarrow> if x \<in> set (inorder root) then 1 else 0 | Insert x \<Rightarrow> 0)
     = length (inorder root) + (case c of Insert x \<Rightarrow> if x \<in> set (inorder root) then 0 else 1 | Delete x \<Rightarrow> 0)"
  proof (cases c)
    case (Insert x)
    then show ?thesis
      using apply_op_set[OF Cons.prems(1) t1] len[OF ok1] len[OF Cons.prems(1)]
      by (auto simp: insert_absorb)
  next
    case (Delete x)
    have "x \<in> set (inorder root) \<Longrightarrow> card (set (inorder root)) > 0"
      by (auto simp: card_gt_0_iff)
    then show ?thesis
      using Delete apply_op_set[OF Cons.prems(1) t1] len[OF ok1] len[OF Cons.prems(1)]
      by auto
  qed
  show ?case using IH step t1 by simp
qed

subsection \<open>The store model refines the tree model\<close>

lemma cells_frame:
  "cells h p t = Some as \<Longrightarrow> (\<forall>b \<in> set as. h' b = h b) \<Longrightarrow> cells h' p t = Some as"
proof (induction t arbitrary: p as)
  case Absent
  then show ?case by (cases p) auto
next
  case (Node d l r)
  from Node.prems(1) obtain a where p: "p = Some a" by (cases p) auto
  from Node.prems(1) p obtain xs ys where d: "data (h a) = d"
    and xs: "cells h (left (h a)) l = Some xs" and ys: "cells h (right (h a)) r = Some ys"
    and as: "as = xs @ a # ys"
    by (auto split: if_splits option.splits)
  from Node.prems(2) as have a: "h' a = h a" by simp
  have "cells h' (left (h a)) l = Some xs" using Node.IH(1)[OF xs] Node.prems(2) as by simp
  moreover have "cells h' (right (h a)) r = Some ys" using Node.IH(2)[OF ys] Node.prems(2) as by simp
  ultimately show ?case using p d a as by simp
qed

lemma cells_None_iff: "cells h p t = Some as \<Longrightarrow> p = None \<longleftrightarrow> t = Absent"
  by (cases p; cases t) auto

lemma cells_Absent: "cells h p Absent = Some as \<Longrightarrow> p = None \<and> as = []"
  by (cases p) auto

lemma cells_Node:
  "cells h p (Node d l r) = Some as \<Longrightarrow>
   \<exists>a xs ys. p = Some a \<and> data (h a) = d \<and> cells h (left (h a)) l = Some xs \<and>
             cells h (right (h a)) r = Some ys \<and> as = xs @ a # ys"
  by (cases p) (auto split: if_splits option.splits)

lemma min_value_h_refines:
  "cells h p t = Some as \<Longrightarrow> size t < fuel \<Longrightarrow> min_value_h fuel h p = Some (min_value t)"
proof (induction t arbitrary: p as fuel)
  case Absent
  then obtain n where "fuel = Suc n" by (cases fuel) auto
  with Absent show ?case by (auto dest: cells_Absent)
next
  case (Node d l r)
  from cells_Node[OF Node.prems(1)] obtain a xs where p: "p = Some a"
    and d: "data (h a) = d" and xs: "cells h (left (h a)) l = Some xs" by blast
  from Node.prems(2) obtain n where n: "fuel = Suc n" "size l < n" by (cases fuel) auto
  have iff: "left (h a) = None \<longleftrightarrow> l = Absent" using cells_None_iff[OF xs] .
  show ?case using p d n iff Node.IH(1)[OF xs n(2)] by simp
qed

lemma delete_h_refines:
  "cells h p t = Some as \<Longrightarrow> distinct as \<Longrightarrow> size t < fuel \<Longrightarrow>
   \<exists>t' h' p' as'. delete t key = Inr t' \<and> delete_h fuel h p key = Some (Inr (h', p')) \<and>
      cells h' p' t' = Some as' \<and> distinct as' \<and> set as' \<subseteq> set as \<and>
      (\<forall>b. b \<notin> set as \<longrightarrow> h' b = h b)"
proof (induction t arbitrary: h p as fuel key)
  case Absent
  then obtain n where "fuel = Suc n" by (cases fuel) auto
  with Absent show ?case by (auto dest: cells_Absent)
next
  case (Node d l r)
  from cells_Node[OF Node.prems(1)] obtain a xs ys where p: "p = Some a"
    and d: "data (h a) = d" and xs: "cells h (left (h a)) l = Some xs"
    and ys: "cells h (right (h a)) r = Some ys" and as: "as = xs @ a # ys" by blast
  from Node.prems(2) as have dxs: "distinct xs" and dys: "distinct ys"
    and axs: "a \<notin> set xs" and ays: "a \<notin> set ys" and disj: "set xs \<inter> set ys = {}"
    by auto
  from Node.prems(3) obtain n where n: "fuel = Suc n" "size l < n" "size r < n"
    by (cases fuel) auto
  have liff: "left (h a) = None \<longleftrightarrow> l = Absent" using cells_None_iff[OF xs] .
  have riff: "right (h a) = None \<longleftrightarrow> r = Absent" using cells_None_iff[OF ys] .
  consider (L) "key < d" | (R) "d < key" | (E) "key = d" by force
  then show ?case
  proof cases
    case L
    from Node.IH(1)[OF xs dxs n(2), of key] obtain l' h1 p1 xs'
      where dl: "delete l key = Inr l'" and run: "delete_h n h (left (h a)) key = Some (Inr (h1, p1))"
        and c1: "cells h1 p1 l' = Some xs'" and d1: "distinct xs'" and sub: "set xs' \<subseteq> set xs"
        and fr: "\<forall>b. b \<notin> set xs \<longrightarrow> h1 b = h b" by blast
    define h2 where "h2 = h1(a := (h1 a)\<lparr>left := p1\<rparr>)"
    have h1a: "h1 a = h a" using fr axs by simp
    have res: "delete_h fuel h p key = Some (Inr (h2, Some a))"
      using L p d n(1) run by (simp add: h2_def)
    have cl: "cells h2 p1 l' = Some xs'"
      using c1 by (rule cells_frame) (use sub axs in \<open>auto simp: h2_def\<close>)
    have cr: "cells h2 (right (h a)) r = Some ys"
      using ys by (rule cells_frame) (use fr disj ays in \<open>auto simp: h2_def\<close>)
    have "cells h2 (Some a) (Node d l' r) = Some (xs' @ a # ys)"
      using cl cr d h1a by (simp add: h2_def)
    moreover have "distinct (xs' @ a # ys)" using d1 dys axs ays disj sub by auto
    moreover have "set (xs' @ a # ys) \<subseteq> set as" using sub as by auto
    moreover have "\<forall>b. b \<notin> set as \<longrightarrow> h2 b = h b" using fr as by (auto simp: h2_def)
    moreover have "delete (Node d l r) key = Inr (Node d l' r)" using L dl by simp
    ultimately show ?thesis using res by blast
  next
    case R
    then have nL: "\<not> key < d" by simp
    from Node.IH(2)[OF ys dys n(3), of key] obtain r' h1 p1 ys'
      where dr: "delete r key = Inr r'" and run: "delete_h n h (right (h a)) key = Some (Inr (h1, p1))"
        and c1: "cells h1 p1 r' = Some ys'" and d1: "distinct ys'" and sub: "set ys' \<subseteq> set ys"
        and fr: "\<forall>b. b \<notin> set ys \<longrightarrow> h1 b = h b" by blast
    define h2 where "h2 = h1(a := (h1 a)\<lparr>right := p1\<rparr>)"
    have h1a: "h1 a = h a" using fr ays by simp
    have res: "delete_h fuel h p key = Some (Inr (h2, Some a))"
      using R nL p d n(1) run by (simp add: h2_def)
    have cr: "cells h2 p1 r' = Some ys'"
      using c1 by (rule cells_frame) (use sub ays in \<open>auto simp: h2_def\<close>)
    have cl: "cells h2 (left (h a)) l = Some xs"
      using xs by (rule cells_frame) (use fr disj axs in \<open>auto simp: h2_def\<close>)
    have "cells h2 (Some a) (Node d l r') = Some (xs @ a # ys')"
      using cl cr d h1a by (simp add: h2_def)
    moreover have "distinct (xs @ a # ys')" using d1 dxs axs ays disj sub by auto
    moreover have "set (xs @ a # ys') \<subseteq> set as" using sub as by auto
    moreover have "\<forall>b. b \<notin> set as \<longrightarrow> h2 b = h b" using fr as by (auto simp: h2_def)
    moreover have "delete (Node d l r) key = Inr (Node d l r')" using R nL dr by simp
    ultimately show ?thesis using res by blast
  next
    case E
    show ?thesis
    proof (cases "l = Absent")
      case True
      have "delete_h fuel h p key = Some (Inr (h, right (h a)))"
        using E p d n(1) True liff by simp
      moreover have "delete (Node d l r) key = Inr r" using E True by simp
      moreover have "set ys \<subseteq> set as" using as by auto
      ultimately show ?thesis using ys dys by blast
    next
      case lne: False
      show ?thesis
      proof (cases "r = Absent")
        case True
        have "delete_h fuel h p key = Some (Inr (h, left (h a)))"
          using E p d n(1) True lne liff riff by simp
        moreover have "delete (Node d l r) key = Inr l" using E True lne by simp
        moreover have "set xs \<subseteq> set as" using as by auto
        ultimately show ?thesis using xs dxs by blast
      next
        case rne: False
        define m where "m = hd (inorder r)"
        have mv: "min_value r = Inr m" using rne by (simp add: min_value_leftmost m_def)
        have mh: "min_value_h n h (right (h a)) = Some (Inr m)"
          using min_value_h_refines[OF ys n(3)] mv by simp
        define h1 where "h1 = h(a := (h a)\<lparr>data := m\<rparr>)"
        have h1r: "right (h1 a) = right (h a)" and h1d: "data (h1 a) = m"
          and h1l: "left (h1 a) = left (h a)" by (simp_all add: h1_def)
        have ys1: "cells h1 (right (h a)) r = Some ys"
          using ys by (rule cells_frame) (use ays in \<open>auto simp: h1_def\<close>)
        from Node.IH(2)[OF ys1 dys n(3), of m] obtain r' h2 p2 ys'
          where dr: "delete r m = Inr r'"
            and run: "delete_h n h1 (right (h a)) m = Some (Inr (h2, p2))"
            and c2: "cells h2 p2 r' = Some ys'" and d2: "distinct ys'" and sub: "set ys' \<subseteq> set ys"
            and fr: "\<forall>b. b \<notin> set ys \<longrightarrow> h2 b = h1 b" by blast
        define h3 where "h3 = h2(a := (h2 a)\<lparr>right := p2\<rparr>)"
        have h2a: "h2 a = h1 a" using fr ays by simp
        from lne liff obtain la where la: "left (h a) = Some la" by auto
        from rne riff obtain ra where ra: "right (h a) = Some ra" by auto
        have res: "delete_h fuel h p key = Some (Inr (h3, Some a))"
          using E p d n(1) la ra mh run h1r h1d
          by (simp add: h1_def[symmetric] h3_def Let_def)
        have cr: "cells h3 p2 r' = Some ys'"
          using c2 by (rule cells_frame) (use sub ays in \<open>auto simp: h3_def\<close>)
        have cl: "cells h3 (left (h a)) l = Some xs"
          using xs by (rule cells_frame) (use fr disj axs in \<open>auto simp: h3_def h1_def\<close>)
        have "cells h3 (Some a) (Node m l r') = Some (xs @ a # ys')"
          using cl cr h2a h1d h1l by (simp add: h3_def)
        moreover have "distinct (xs @ a # ys')" using d2 dxs axs ays disj sub by auto
        moreover have "set (xs @ a # ys') \<subseteq> set as" using sub as by auto
        moreover have "\<forall>b. b \<notin> set as \<longrightarrow> h3 b = h b"
          using fr as by (auto simp: h3_def h1_def)
        moreover have "delete (Node d l r) key = Inr (Node m l r')"
          using E lne rne mv dr by simp
        ultimately show ?thesis using res by blast
      qed
    qed
  qed
qed

lemma tree_at_cells: "tree_at h p t \<longleftrightarrow> (\<exists>as. cells h p t = Some as \<and> distinct as)"
  by (simp add: tree_at_def split: option.splits)

lemma delete_h_two_children:
  assumes c: "cells h (Some a) (Node d l r) = Some as" and dist: "distinct as"
    and lne: "l \<noteq> Absent" and rne: "r \<noteq> Absent" and fuel: "size (Node d l r) < fuel"
  shows "\<exists>m r' h' as'. min_value r = Inr m \<and> delete r m = Inr r' \<and>
           delete_h fuel h (Some a) d = Some (Inr (h', Some a)) \<and>
           data (h' a) = m \<and> left (h' a) = left (h a) \<and>
           cells h' (Some a) (Node m l r') = Some as' \<and> distinct as'"
proof -
  from cells_Node[OF c] obtain xs ys where dd: "data (h a) = d"
    and xs: "cells h (left (h a)) l = Some xs"
    and ys: "cells h (right (h a)) r = Some ys" and as: "as = xs @ a # ys" by auto
  from dist as have dxs: "distinct xs" and dys: "distinct ys"
    and axs: "a \<notin> set xs" and ays: "a \<notin> set ys" and disj: "set xs \<inter> set ys = {}"
    by auto
  from fuel obtain n where n: "fuel = Suc n" "size r < n" by (cases fuel) auto
  from lne cells_None_iff[OF xs] obtain la where la: "left (h a) = Some la" by auto
  from rne cells_None_iff[OF ys] obtain ra where ra: "right (h a) = Some ra" by auto
  define m where "m = hd (inorder r)"
  have mv: "min_value r = Inr m" using rne by (simp add: min_value_leftmost m_def)
  have mh: "min_value_h n h (right (h a)) = Some (Inr m)"
    using min_value_h_refines[OF ys n(2)] mv by simp
  define h1 where "h1 = h(a := (h a)\<lparr>data := m\<rparr>)"
  have h1r: "right (h1 a) = right (h a)" and h1d: "data (h1 a) = m"
    and h1l: "left (h1 a) = left (h a)" by (simp_all add: h1_def)
  have ys1: "cells h1 (right (h a)) r = Some ys"
    using ys by (rule cells_frame) (use ays in \<open>auto simp: h1_def\<close>)
  from delete_h_refines[OF ys1 dys n(2), of m] obtain r' h2 p2 ys'
    where dr: "delete r m = Inr r'"
      and run: "delete_h n h1 (right (h a)) m = Some (Inr (h2, p2))"
      and c2: "cells h2 p2 r' = Some ys'" and d2: "distinct ys'" and sub: "set ys' \<subseteq> set ys"
      and fr: "\<forall>b. b \<notin> set ys \<longrightarrow> h2 b = h1 b" by blast
  define h3 where "h3 = h2(a := (h2 a)\<lparr>right := p2\<rparr>)"
  have h2a: "h2 a = h1 a" using fr ays by simp
  have res: "delete_h fuel h (Some a) d = Some (Inr (h3, Some a))"
    using dd n(1) la ra mh run h1r h1d
    by (simp add: h1_def[symmetric] h3_def Let_def)
  have cr: "cells h3 p2 r' = Some ys'"
    using c2 by (rule cells_frame) (use sub ays in \<open>auto simp: h3_def\<close>)
  have cl: "cells h3 (left (h a)) l = Some xs"
    using xs by (rule cells_frame) (use fr disj axs in \<open>auto simp: h3_def h1_def\<close>)
  have "cells h3 (Some a) (Node m l r') = Some (xs @ a # ys')"
    using cl cr h2a h1d h1l by (simp add: h3_def)
  moreover have "distinct (xs @ a # ys')" using d2 dxs axs ays disj sub by auto
  moreover have "data (h3 a) = m" "left (h3 a) = left (h a)"
    using h2a h1d h1l by (simp_all add: h3_def)
  ultimately show ?thesis using mv dr res by blast
qed

subsection \<open>Properties of the tree operations\<close>

text \<open>
  Claim C1. Whatever finite sequence of inserts and deletes is applied to the empty tree,
  the run returns a tree (no exception), and the inorder traversal of that tree is
  strictly ascending.
\<close>

theorem inorder_ascending:
  "\<exists>t. apply_ops Absent cs = Inr t \<and> sorted_wrt (<) (inorder t)"
proof -
  obtain t where t: "apply_ops Absent cs = Inr t" using apply_ops_total by blast
  have "bst_ok (Absent :: 'a bst)" by simp
  then have "bst_ok t" using t by (rule apply_ops_ok)
  then show ?thesis using t by (simp add: bst_ok_sorted)
qed

text \<open>
  Claim C2. For the tree \<open>t\<close> built from the empty tree by a sequence of operations and
  any value \<open>v\<close>: if some insert of \<open>v\<close> is followed by no delete of \<open>v\<close>, then
  \<open>search t v\<close> is true; if the sequence has no insert of \<open>v\<close>, then \<open>search t v\<close> is
  false.
\<close>

theorem search_correct:
  "\<exists>t. apply_ops Absent cs = Inr t \<and>
       ((\<exists>pre post. cs = pre @ Insert v # post \<and> Delete v \<notin> set post) \<longrightarrow> search t v) \<and>
       (Insert v \<notin> set cs \<longrightarrow> \<not> search t v)"
proof -
  obtain t where t: "apply_ops Absent cs = Inr t" using apply_ops_total by blast
  have ok0: "bst_ok (Absent :: 'a bst)" by simp
  have ok: "bst_ok t" using ok0 t by (rule apply_ops_ok)
  have found: "search t v" if "cs = pre @ Insert v # post" "Delete v \<notin> set post" for pre post
  proof -
    obtain t1 where t1: "apply_ops Absent pre = Inr t1" using apply_ops_total by blast
    have ok1: "bst_ok t1" using ok0 t1 by (rule apply_ops_ok)
    from t that(1) t1 have run: "apply_ops (insert_bst t1 v) post = Inr t"
      by (simp add: apply_ops_append)
    have "v \<in> set (inorder t)"
      using apply_ops_keeps[OF bst_ok_insert[OF ok1] run _ that(2)]
      by (simp add: set_inorder_insert)
    then show ?thesis using ok by (simp add: search_iff)
  qed
  have missing: "\<not> search t v" if "Insert v \<notin> set cs"
  proof -
    have "v \<notin> set (inorder t)" using apply_ops_never[OF ok0 t _ that] by simp
    then show ?thesis using ok by (simp add: search_iff)
  qed
  from t found missing show ?thesis by blast
qed

theorem search_correct_witness:
  "\<exists>t. apply_ops Absent [Insert 1, Insert 2, Delete (1::int)] = Inr t \<and>
       search t 2 \<and> \<not> search t 3"
proof -
  have h1: "\<exists>pre post. [Insert 1, Insert 2, Delete (1::int)] = pre @ Insert 2 # post \<and>
              Delete 2 \<notin> set post"
    by (intro exI[of _ "[Insert 1]"] exI[of _ "[Delete 1]"]) simp
  have h2: "Insert 3 \<notin> set [Insert 1, Insert 2, Delete (1::int)]" by simp
  from search_correct[of "[Insert 1, Insert 2, Delete (1::int)]" 2] h1
  obtain t where t: "apply_ops Absent [Insert 1, Insert 2, Delete (1::int)] = Inr t"
    and s2: "search t 2" by blast
  from search_correct[of "[Insert 1, Insert 2, Delete (1::int)]" 3] h2 t
  have "\<not> search t 3" by auto
  with t s2 show ?thesis by blast
qed

text \<open>
  Claim C3. For a tree \<open>root\<close> that satisfies the ordering invariant and any key \<open>v\<close>,
  \<open>delete root v\<close> returns a tree \<open>root'\<close> in which \<open>v\<close> is not found, and every other
  value \<open>w\<close> that was found in \<open>root\<close> is still found in \<open>root'\<close>.
\<close>

theorem delete_then_search:
  assumes "bst_ok root"
  shows "\<exists>root'. delete root v = Inr root' \<and> \<not> search root' v \<and>
           (\<forall>w. w \<noteq> v \<and> search root w \<longrightarrow> search root' w)"
proof -
  obtain root' where d: "delete root v = Inr root'" using delete_total by blast
  from delete_sound[OF assms d] have ok': "bst_ok root'"
    and s: "set (inorder root') = set (inorder root) - {v}" by auto
  show ?thesis using d s by (auto simp: search_iff[OF ok'] search_iff[OF assms])
qed

theorem delete_then_search_witness:
  "bst_ok (Node (2::int) (Node 1 Absent Absent) (Node 3 Absent Absent)) \<and>
   (\<exists>root'. delete (Node (2::int) (Node 1 Absent Absent) (Node 3 Absent Absent)) 2 = Inr root' \<and>
      \<not> search root' 2 \<and> search root' 1 \<and> search root' 3)"
proof -
  have ok: "bst_ok (Node (2::int) (Node 1 Absent Absent) (Node 3 Absent Absent))" by simp
  have "search (Node (2::int) (Node 1 Absent Absent) (Node 3 Absent Absent)) 1"
    and "search (Node (2::int) (Node 1 Absent Absent) (Node 3 Absent Absent)) 3" by simp_all
  with delete_then_search[OF ok, of 2] ok show ?thesis by fastforce
qed

text \<open>
  Claim C4. Inserting a value that is already in a tree satisfying the ordering invariant
  returns the very same tree: same shape, same values, hence the same inorder sequence.
\<close>

theorem insert_duplicate:
  assumes "bst_ok root" and "v \<in> set (inorder root)"
  shows "insert_bst root v = root \<and> inorder (insert_bst root v) = inorder root"
proof -
  from assms have "insert_bst root v = root"
    by (induction root) auto
  then show ?thesis by simp
qed

theorem insert_duplicate_witness:
  "bst_ok (Node (2::int) (Node 1 Absent Absent) (Node 3 Absent Absent)) \<and>
   3 \<in> set (inorder (Node (2::int) (Node 1 Absent Absent) (Node 3 Absent Absent))) \<and>
   insert_bst (Node (2::int) (Node 1 Absent Absent) (Node 3 Absent Absent)) 3 =
     Node 2 (Node 1 Absent Absent) (Node 3 Absent Absent)"
  using insert_duplicate[of "Node (2::int) (Node 1 Absent Absent) (Node 3 Absent Absent)" 3]
  by simp

text \<open>
  Claim C5. Let a tree satisfy the ordering invariant, its root hold the key and have both
  children. Then \<open>min_value\<close> returns for the right subtree its least value \<open>m\<close>, and
  \<open>delete\<close> returns the tree with \<open>m\<close> at the root, the old left subtree and, as right
  subtree, the result of deleting \<open>m\<close> from the old right subtree. On a store that holds
  the tree at the object \<open>a\<close>, \<open>delete\<close> returns the reference to the same object \<open>a\<close>:
  it has written \<open>m\<close> into the \<open>data\<close> field of \<open>a\<close>, the \<open>left\<close> field of \<open>a\<close> is
  unchanged, and the store holds the resulting tree at \<open>a\<close>.
\<close>

theorem delete_two_children:
  assumes "bst_ok (Node key l r)" and "l \<noteq> Absent" and "r \<noteq> Absent"
  shows "\<exists>m r'. min_value r = Inr m \<and> m \<in> set (inorder r) \<and>
           (\<forall>y \<in> set (inorder r). m \<le> y) \<and> delete r m = Inr r' \<and>
           delete (Node key l r) key = Inr (Node m l r') \<and>
           (tree_at h (Some a) (Node key l r) \<and> size (Node key l r) < fuel \<longrightarrow>
              (\<exists>h'. delete_h fuel h (Some a) key = Some (Inr (h', Some a)) \<and>
                    data (h' a) = m \<and> left (h' a) = left (h a) \<and>
                    tree_at h' (Some a) (Node m l r')))"
proof -
  define m where "m = hd (inorder r)"
  have mv: "min_value r = Inr m" using assms(3) by (simp add: min_value_leftmost m_def)
  obtain r' where dr: "delete r m = Inr r'" using delete_total by blast
  have "inorder r \<noteq> []" using assms(3) by (simp add: inorder_empty_iff)
  then have mem: "m \<in> set (inorder r)" by (simp add: m_def)
  from assms(1) have "bst_ok r" by simp
  then have "sorted_wrt (<) (inorder r)" by (simp only: bst_ok_sorted)
  then have least: "\<forall>y \<in> set (inorder r). m \<le> y" using hd_sorted_least by (auto simp: m_def)
  have fn: "delete (Node key l r) key = Inr (Node m l r')" using assms(2,3) mv dr by simp
  have store: "\<exists>h'. delete_h fuel h (Some a) key = Some (Inr (h', Some a)) \<and>
                 data (h' a) = m \<and> left (h' a) = left (h a) \<and>
                 tree_at h' (Some a) (Node m l r')"
    if t: "tree_at h (Some a) (Node key l r)" and fuel: "size (Node key l r) < fuel"
  proof -
    from t obtain as where c: "cells h (Some a) (Node key l r) = Some as"
      and dist: "distinct as" by (auto simp: tree_at_cells)
    from delete_h_two_children[OF c dist assms(2,3) fuel] obtain m1 r1 h' as'
      where mv1: "min_value r = Inr m1" and dr1: "delete r m1 = Inr r1"
        and run: "delete_h fuel h (Some a) key = Some (Inr (h', Some a))"
        and dat: "data (h' a) = m1" and lft: "left (h' a) = left (h a)"
        and c': "cells h' (Some a) (Node m1 l r1) = Some as'" and dist': "distinct as'" by blast
    from mv mv1 have m1: "m1 = m" by simp
    with dr dr1 have r1: "r1 = r'" by simp
    have "tree_at h' (Some a) (Node m l r')" using c' dist' m1 r1 by (auto simp: tree_at_cells)
    with run dat lft m1 show ?thesis by blast
  qed
  from mv mem least dr fn store show ?thesis by blast
qed

theorem delete_two_children_witness:
  "bst_ok (Node (50::int) (Node 40 Absent Absent) (Node 70 (Node 60 Absent Absent) Absent)) \<and>
   tree_at example_heap (Some 1)
     (Node 50 (Node 40 Absent Absent) (Node 70 (Node 60 Absent Absent) Absent)) \<and>
   size (Node (50::int) (Node 40 Absent Absent) (Node 70 (Node 60 Absent Absent) Absent)) < 5 \<and>
   delete (Node (50::int) (Node 40 Absent Absent) (Node 70 (Node 60 Absent Absent) Absent)) 50 =
     Inr (Node 60 (Node 40 Absent Absent) (Node 70 Absent Absent)) \<and>
   (\<exists>h'. delete_h 5 example_heap (Some 1) 50 = Some (Inr (h', Some 1)) \<and>
         data (h' 1) = 60 \<and> left (h' 1) = Some 2 \<and>
         tree_at h' (Some 1) (Node 60 (Node 40 Absent Absent) (Node 70 Absent Absent)))"
proof -
  let ?L = "Node (40::int) Absent Absent"
  let ?R = "Node (70::int) (Node 60 Absent Absent) Absent"
  let ?T = "Node (50::int) ?L ?R"
  have ok: "bst_ok ?T" by simp
  have ne: "?L \<noteq> Absent" "?R \<noteq> Absent" by simp_all
  have t: "tree_at example_heap (Some 1) ?T" by (simp add: tree_at_def example_heap_def)
  have sz: "size ?T < 5" by simp
  have l1: "left (example_heap 1) = Some 2" by (simp add: example_heap_def)
  have mv: "min_value ?R = Inr 60" by simp
  have dr: "delete ?R 60 = Inr (Node 70 Absent Absent)" by simp
  have fn: "delete ?T 50 = Inr (Node 60 ?L (Node 70 Absent Absent))" by simp
  from delete_two_children[OF ok ne, of example_heap 1 5] obtain m r'
    where m: "min_value ?R = Inr m" and r': "delete ?R m = Inr r'"
      and st: "tree_at example_heap (Some 1) ?T \<and> size ?T < 5 \<longrightarrow>
        (\<exists>h'. delete_h 5 example_heap (Some 1) 50 = Some (Inr (h', Some 1)) \<and>
              data (h' 1) = m \<and> left (h' 1) = left (example_heap 1) \<and>
              tree_at h' (Some 1) (Node m ?L r'))"
    by blast
  from m mv have m60: "m = 60" by simp
  with r' dr have r70: "r' = Node 70 Absent Absent" by simp
  from st t sz have "\<exists>h'. delete_h 5 example_heap (Some 1) 50 = Some (Inr (h', Some 1)) \<and>
              data (h' 1) = 60 \<and> left (h' 1) = Some 2 \<and>
              tree_at h' (Some 1) (Node 60 ?L (Node 70 Absent Absent))"
    by (simp only: m60 r70 l1)
  with ok t sz fn show ?thesis by blast
qed

text \<open>
  Claim C6. On a node that is not absent, \<open>min_value\<close> returns a value and raises nothing:
  the value of the left-most descendant, that is the first value of the inorder traversal,
  which is the minimum of the subtree when the ordering invariant holds; on a store that
  holds the subtree, the loop returns that value with any fuel above the size of the
  subtree, so it terminates. No call of \<open>delete\<close>, on trees or on a store that holds a
  tree, and no sequence of inserts and deletes, ends in the exception of \<open>min_value\<close> on
  an absent node.
\<close>

theorem min_value_safe:
  "(node \<noteq> Absent \<longrightarrow>
      (\<exists>m. min_value node = Inr m \<and> m = hd (inorder node) \<and>
           (bst_ok node \<longrightarrow> m = Min (set (inorder node))) \<and>
           (tree_at hn pn node \<and> size node < fuel \<longrightarrow>
              min_value_h fuel hn pn = Some (Inr m)))) \<and>
   (\<exists>root'. delete root key = Inr root') \<and>
   (tree_at h p root \<longrightarrow>
      (\<exists>h' p'. delete_h (Suc (size root)) h p key = Some (Inr (h', p')))) \<and>
   (\<exists>root'. apply_ops root cs = Inr root')"
proof -
  have least: "hd (inorder node) = Min (set (inorder node))" if "node \<noteq> Absent" "bst_ok node"
  proof -
    from that(1) have ne: "inorder node \<noteq> []" by (simp add: inorder_empty_iff)
    have "sorted_wrt (<) (inorder node)" using that(2) by (simp add: bst_ok_sorted)
    then have "\<forall>y \<in> set (inorder node). hd (inorder node) \<le> y" using hd_sorted_least by auto
    then show ?thesis using ne by (intro Min_eqI[symmetric]) auto
  qed
  have loop: "min_value_h fuel hn pn = Some (Inr (hd (inorder node)))"
    if "node \<noteq> Absent" "tree_at hn pn node" "size node < fuel"
  proof -
    from that(2) obtain as where "cells hn pn node = Some as" by (auto simp: tree_at_cells)
    from min_value_h_refines[OF this that(3)] that(1) show ?thesis
      by (simp add: min_value_leftmost)
  qed
  have del: "\<exists>h' p'. delete_h (Suc (size root)) h p key = Some (Inr (h', p'))" if "tree_at h p root"
  proof -
    from that obtain as where c: "cells h p root = Some as" and d: "distinct as"
      by (auto simp: tree_at_cells)
    have "size root < Suc (size root)" by simp
    from delete_h_refines[OF c d this, of key] show ?thesis by blast
  qed
  show ?thesis
    using min_value_leftmost[of node] least loop del delete_total[of root key]
      apply_ops_total[of root cs]
    by auto
qed

theorem min_value_safe_witness:
  "Node (70::int) (Node 60 Absent Absent) Absent \<noteq> Absent \<and>
   bst_ok (Node (70::int) (Node 60 Absent Absent) Absent) \<and>
   tree_at example_heap (Some 3) (Node 70 (Node 60 Absent Absent) Absent) \<and>
   size (Node (70::int) (Node 60 Absent Absent) Absent) < 3 \<and>
   tree_at example_heap (Some 1)
     (Node 50 (Node 40 Absent Absent) (Node 70 (Node 60 Absent Absent) Absent)) \<and>
   min_value (Node (70::int) (Node 60 Absent Absent) Absent) = Inr 60 \<and>
   Min (set (inorder (Node (70::int) (Node 60 Absent Absent) Absent))) = 60 \<and>
   min_value_h 3 example_heap (Some 3) = Some (Inr 60) \<and>
   (\<exists>h' p'. delete_h 5 example_heap (Some 1) 50 = Some (Inr (h', p')))"
proof -
  let ?N = "Node (70::int) (Node 60 Absent Absent) Absent"
  let ?T = "Node (50::int) (Node 40 Absent Absent) ?N"
  have ne: "?N \<noteq> Absent" by simp
  have ok: "bst_ok ?N" by simp
  have tn: "tree_at example_heap (Some 3) ?N" by (simp add: tree_at_def example_heap_def)
  have tt: "tree_at example_heap (Some 1) ?T" by (simp add: tree_at_def example_heap_def)
  have szn: "size ?N < 3" by simp
  have szt: "Suc (size ?T) = 5" by simp
  have hd: "hd (inorder ?N) = 60" by simp
  note th = min_value_safe[of ?N example_heap "Some 3" 3 ?T 50 example_heap "Some 1" "[]"]
  from th ne ok tn szn have
    "min_value ?N = Inr (hd (inorder ?N)) \<and> hd (inorder ?N) = Min (set (inorder ?N)) \<and>
     min_value_h 3 example_heap (Some 3) = Some (Inr (hd (inorder ?N)))"
    by blast
  then have a: "min_value ?N = Inr 60 \<and> Min (set (inorder ?N)) = 60 \<and>
     min_value_h 3 example_heap (Some 3) = Some (Inr 60)"
    by (simp only: hd)
  from th tt have "\<exists>h' p'. delete_h (Suc (size ?T)) example_heap (Some 1) 50 = Some (Inr (h', p'))"
    by blast
  then have b: "\<exists>h' p'. delete_h 5 example_heap (Some 1) 50 = Some (Inr (h', p'))"
    by (simp only: szt)
  from ne ok tn szn tt a b show ?thesis by blast
qed

text \<open>
  Claim C7, as the specification states it, fails when a value is inserted again after it
  was deleted: after insert 1, delete 1, insert 1 the traversal yields one value, while
  one distinct value was inserted and one delete found its key.
\<close>

theorem inorder_count_counterexample:
  "apply_ops Absent [Insert 1, Delete 1, Insert (1::int)] = Inr (Node 1 Absent Absent) \<and>
   int (length (inorder (Node (1::int) Absent Absent))) \<noteq>
     int (length (remdups (inserted_values [Insert 1, Delete 1, Insert (1::int)]))) -
     int (present_deletes Absent [Insert 1, Delete 1, Insert (1::int)])"
  by simp

text \<open>
  Claim C7, amended. After any sequence of inserts and deletes applied to the empty tree,
  the number of values the inorder traversal yields is the number of insert operations
  whose value was not in the tree when they ran, minus the number of delete operations
  whose key was in the tree when they ran.
\<close>

theorem inorder_count:
  "\<exists>t. apply_ops Absent cs = Inr t \<and>
       int (length (inorder t)) = int (absent_inserts Absent cs) - int (present_deletes Absent cs)"
proof -
  obtain t where t: "apply_ops Absent cs = Inr t" using apply_ops_total by blast
  have "bst_ok (Absent :: 'a bst)" by simp
  from count_general[OF this t] t show ?thesis by simp
qed

text \<open>
  Claim C8. The scenario of \<^verbatim>\<open>binary_search_tree_example\<close>: the seven inserts, the two
  searches and the three deletes give the stated traversals, and after the last delete the
  root holds 60, the successor of 50.
\<close>

theorem example_scenario:
  "\<exists>t t1 t2 t3.
     apply_ops Absent (map Insert [50, 30, 20, 40, 70, 60, 80::int]) = Inr t \<and>
     inorder t = [20, 30, 40, 50, 60, 70, 80] \<and>
     search t 40 \<and> \<not> search t 90 \<and>
     delete t 20 = Inr t1 \<and> inorder t1 = [30, 40, 50, 60, 70, 80] \<and>
     delete t1 30 = Inr t2 \<and> inorder t2 = [40, 50, 60, 70, 80] \<and>
     delete t2 50 = Inr t3 \<and> inorder t3 = [40, 60, 70, 80] \<and>
     (\<exists>l r. t3 = Node 60 l r)"
  apply (rule exI[of _ "Node 50 (Node 30 (Node 20 Absent Absent) (Node 40 Absent Absent))
                                 (Node 70 (Node 60 Absent Absent) (Node 80 Absent Absent))"])
  apply (rule exI[of _ "Node 50 (Node 30 Absent (Node 40 Absent Absent))
                                 (Node 70 (Node 60 Absent Absent) (Node 80 Absent Absent))"])
  apply (rule exI[of _ "Node 50 (Node 40 Absent Absent)
                                 (Node 70 (Node 60 Absent Absent) (Node 80 Absent Absent))"])
  apply (rule exI[of _ "Node 60 (Node 40 Absent Absent) (Node 70 Absent (Node 80 Absent Absent))"])
  apply simp
  done

text \<open>
  Claim C9. Deleting a key that occurs nowhere in a tree satisfying the ordering invariant
  returns the very same tree.
\<close>

theorem delete_absent_key:
  assumes "bst_ok root" and "v \<notin> set (inorder root)"
  shows "\<exists>root'. delete root v = Inr root' \<and> root' = root \<and> inorder root' = inorder root"
proof -
  from assms have "delete root v = Inr root"
    by (induction root) auto
  then show ?thesis by simp
qed

theorem delete_absent_key_witness:
  "bst_ok (Node (2::int) (Node 1 Absent Absent) (Node 3 Absent Absent)) \<and>
   7 \<notin> set (inorder (Node (2::int) (Node 1 Absent Absent) (Node 3 Absent Absent))) \<and>
   delete (Node (2::int) (Node 1 Absent Absent) (Node 3 Absent Absent)) 7 =
     Inr (Node 2 (Node 1 Absent Absent) (Node 3 Absent Absent))"
  using delete_absent_key[of "Node (2::int) (Node 1 Absent Absent) (Node 3 Absent Absent)" 7]
  by simp

section \<open>Verification of the Bell number functions\<close>

subsection \<open>The Bell triangle computes the sums of Stirling numbers\<close>

lemma stirling2_above: "n < k \<Longrightarrow> stirling2 n k = 0"
  by (induction n k rule: stirling2.induct) auto

lemma pascal_sum:
  fixes f :: "nat \<Rightarrow> nat"
  shows "(\<Sum>j\<le>Suc n. (Suc n choose j) * f j) =
         (\<Sum>j\<le>n. (n choose j) * f j) + (\<Sum>j\<le>n. (n choose j) * f (Suc j))"
proof -
  have "(\<Sum>j\<le>Suc n. (Suc n choose j) * f j) =
        (Suc n choose 0) * f 0 + (\<Sum>j\<le>n. (Suc n choose Suc j) * f (Suc j))"
    by (rule sum.atMost_Suc_shift)
  also have "\<dots> = f 0 + ((\<Sum>j\<le>n. (n choose j) * f (Suc j)) + (\<Sum>j\<le>n. (n choose Suc j) * f (Suc j)))"
    by (simp add: add_mult_distrib sum.distrib del: sum.atMost_Suc)
  also have "(\<Sum>j\<le>n. (n choose Suc j) * f (Suc j)) = (\<Sum>j<n. (n choose Suc j) * f (Suc j))"
  proof (rule sum.mono_neutral_right)
    show "\<forall>i\<in>{..n} - {..<n}. (n choose Suc i) * f (Suc i) = 0"
    proof
      fix i assume "i \<in> {..n} - {..<n}"
      then have "i = n" by auto
      then show "(n choose Suc i) * f (Suc i) = 0" by simp
    qed
  qed auto
  also have "f 0 + ((\<Sum>j\<le>n. (n choose j) * f (Suc j)) + (\<Sum>j<n. (n choose Suc j) * f (Suc j)))
      = (f 0 + (\<Sum>j<n. (n choose Suc j) * f (Suc j))) + (\<Sum>j\<le>n. (n choose j) * f (Suc j))"
    by simp
  also have "f 0 + (\<Sum>j<n. (n choose Suc j) * f (Suc j)) = (\<Sum>j\<le>n. (n choose j) * f j)"
    using sum.atMost_shift[of "\<lambda>j. (n choose j) * f j" n] by simp
  finally show ?thesis .
qed

lemma stirling2_binomial:
  "stirling2 (Suc n) (Suc k) = (\<Sum>j\<le>n. (n choose j) * stirling2 j k)"
proof (induction n arbitrary: k)
  case 0
  show ?case by simp
next
  case (Suc n)
  have shift: "(\<Sum>j\<le>n. (n choose j) * stirling2 (Suc j) k) =
               k * stirling2 (Suc n) (Suc k) + stirling2 (Suc n) k"
  proof (cases k)
    case 0
    then show ?thesis by simp
  next
    case (Suc k')
    have "(\<Sum>j\<le>n. (n choose j) * stirling2 (Suc j) (Suc k')) =
          Suc k' * (\<Sum>j\<le>n. (n choose j) * stirling2 j (Suc k')) + (\<Sum>j\<le>n. (n choose j) * stirling2 j k')"
      by (simp add: sum_distrib_left sum.distrib algebra_simps)
    also have "\<dots> = Suc k' * stirling2 (Suc n) (Suc (Suc k')) + stirling2 (Suc n) (Suc k')"
      by (simp only: Suc.IH[symmetric])
    finally show ?thesis using Suc by simp
  qed
  have "(\<Sum>j\<le>Suc n. (Suc n choose j) * stirling2 j k) =
        stirling2 (Suc n) (Suc k) + (k * stirling2 (Suc n) (Suc k) + stirling2 (Suc n) k)"
    by (simp only: pascal_sum shift Suc.IH[symmetric])
  then show ?case by simp
qed

lemma stirling_sum_rec: "stirling_sum (Suc n) = (\<Sum>j\<le>n. (n choose j) * stirling_sum j)"
proof -
  have "stirling_sum (Suc n) = (\<Sum>k\<le>n. stirling2 (Suc n) (Suc k))"
    unfolding stirling_sum_def by (simp add: sum.atMost_Suc_shift del: sum.atMost_Suc)
  also have "\<dots> = (\<Sum>k\<le>n. \<Sum>j\<le>n. (n choose j) * stirling2 j k)"
    by (simp only: stirling2_binomial)
  also have "\<dots> = (\<Sum>j\<le>n. \<Sum>k\<le>n. (n choose j) * stirling2 j k)"
    by (rule sum.swap)
  also have "\<dots> = (\<Sum>j\<le>n. (n choose j) * (\<Sum>k\<le>n. stirling2 j k))"
    by (simp add: sum_distrib_left)
  also have "\<dots> = (\<Sum>j\<le>n. (n choose j) * stirling_sum j)"
  proof (rule sum.cong[OF refl])
    fix j assume "j \<in> {..n}"
    then have jn: "j \<le> n" by simp
    have "(\<Sum>k\<le>n. stirling2 j k) = (\<Sum>k\<le>j. stirling2 j k)"
      by (rule sum.mono_neutral_right) (use jn in \<open>auto simp: stirling2_above\<close>)
    then show "(n choose j) * (\<Sum>k\<le>n. stirling2 j k) = (n choose j) * stirling_sum j"
      by (simp add: stirling_sum_def)
  qed
  finally show ?thesis .
qed

lemma bell_triangle_binomial:
  "j \<le> i \<Longrightarrow> bell_triangle i j = (\<Sum>k\<le>j. (j choose k) * stirling_sum (i - j + k))"
proof (induction i j rule: bell_triangle.induct)
  case 1
  show ?case by (simp add: stirling_sum_def)
next
  case (2 j)
  then show ?case by simp
next
  case (3 i)
  then show ?case by (simp add: stirling_sum_rec del: sum.atMost_Suc)
next
  case (4 i j)
  from "4.prems" have ji: "j \<le> i" by simp
  have a: "bell_triangle i j = (\<Sum>k\<le>j. (j choose k) * stirling_sum (i - j + k))"
    using "4.IH"(1) ji by simp
  have "bell_triangle (Suc i) j = (\<Sum>k\<le>j. (j choose k) * stirling_sum (Suc i - j + k))"
    using "4.IH"(2) ji by simp
  also have "\<dots> = (\<Sum>k\<le>j. (j choose k) * stirling_sum (i - j + Suc k))"
    using ji by (simp add: Suc_diff_le)
  finally have b: "bell_triangle (Suc i) j = (\<Sum>k\<le>j. (j choose k) * stirling_sum (i - j + Suc k))" .
  have "(\<Sum>k\<le>Suc j. (Suc j choose k) * stirling_sum (Suc i - Suc j + k)) =
        (\<Sum>k\<le>j. (j choose k) * stirling_sum (i - j + k)) + (\<Sum>k\<le>j. (j choose k) * stirling_sum (i - j + Suc k))"
    using pascal_sum[of j "\<lambda>k. stirling_sum (i - j + k)"] by simp
  with a b show ?case by simp
qed

lemma bell_triangle_first: "bell_triangle n 0 = stirling_sum n"
  using bell_triangle_binomial[of 0 n] by simp

subsection \<open>Reading and writing the tables\<close>

lemma and_then_Inr: "and_then (Inr x) f = f x"
  by (simp add: and_then_def)

lemma and_then_Inl: "and_then (Inl e) f = Inl e"
  by (simp add: and_then_def)

lemma getitem_nat: "k < length xs \<Longrightarrow> getitem xs (int k) = Inr (xs ! k)"
  by (simp add: getitem_def)

lemma setitem_nat: "k < length xs \<Longrightarrow> setitem xs (int k) v = Inr (xs[k := v])"
  by (simp add: setitem_def)

lemma get_cell_nat:
  "shape N tbl \<Longrightarrow> r \<le> N \<Longrightarrow> c \<le> N \<Longrightarrow> get_cell tbl (int r) (int c) = Inr (tbl ! r ! c)"
  by (simp add: get_cell_def shape_def getitem_nat and_then_Inr)

lemma set_cell_nat:
  "shape N tbl \<Longrightarrow> r \<le> N \<Longrightarrow> c \<le> N \<Longrightarrow> set_cell tbl (int r) (int c) v = Inr (upd tbl r c v)"
  by (simp add: set_cell_def shape_def getitem_nat setitem_nat and_then_Inr upd_def)

lemma shape_upd: "shape N tbl \<Longrightarrow> shape N (upd tbl r c v)"
proof -
  assume sh: "shape N tbl"
  have "length (upd tbl r c v ! r') = Suc N" if "r' \<le> N" for r'
  proof (cases "r' = r")
    case True
    with that sh show ?thesis by (simp add: shape_def upd_def)
  next
    case False
    with that sh show ?thesis by (simp add: shape_def upd_def)
  qed
  with sh show ?thesis by (simp add: shape_def upd_def)
qed

lemma nth_upd:
  "shape N tbl \<Longrightarrow> r \<le> N \<Longrightarrow> c \<le> N \<Longrightarrow> r' \<le> N \<Longrightarrow> c' \<le> N \<Longrightarrow>
   upd tbl r c v ! r' ! c' = (if r' = r \<and> c' = c then v else tbl ! r' ! c')"
  by (auto simp: shape_def upd_def nth_list_update)

lemma upd_same: "tbl ! r ! c = v \<Longrightarrow> upd tbl r c v = tbl"
proof -
  have "upd tbl r c (tbl ! r ! c) = tbl" by (simp add: upd_def)
  then show "tbl ! r ! c = v \<Longrightarrow> upd tbl r c v = tbl" by simp
qed

lemma zeros_nat: "zeros (int N) = replicate (Suc N) (replicate (Suc N) 0)"
proof -
  have "nat (int N + 1) = Suc N" by simp
  then show ?thesis by (simp only: zeros_def)
qed

lemma shape_zeros: "shape N (zeros (int N))"
  by (simp add: shape_def zeros_nat del: replicate.simps)

lemma nth_zeros: "r \<le> N \<Longrightarrow> c \<le> N \<Longrightarrow> zeros (int N) ! r ! c = 0"
  by (simp add: zeros_nat del: replicate.simps)

lemma range_py_nat: "range_py (int a) (int b) = map int [a..<b]"
proof (induction b)
  case 0
  show ?case by (simp add: range_py_def)
next
  case (Suc b)
  show ?case
  proof (cases "a \<le> b")
    case True
    then have "[int a..int b] = [int a..int b - 1] @ [int b]"
      by (simp add: upto_rec2)
    with Suc True show ?thesis by (simp add: range_py_def)
  next
    case False
    then show ?thesis by (simp add: range_py_def)
  qed
qed

lemma range_py_Suc: "range_py 1 (int k + 1) = map int [1..<Suc k]"
  using range_py_nat[of 1 "Suc k"] by (simp add: add.commute)

lemma range_py_zero: "range_py 0 (int k + 1) = map int [0..<Suc k]"
  using range_py_nat[of 0 "Suc k"] by (simp add: add.commute)

lemma for_each_snoc:
  "for_each (xs @ [x]) body s = and_then (for_each xs body s) (body x)"
proof (induction xs arbitrary: s)
  case Nil
  show ?case by (cases "body x s") (simp_all add: and_then_def)
next
  case (Cons a xs)
  show ?case by (cases "body a s") (simp_all add: and_then_Inl and_then_Inr Cons.IH)
qed

subsection \<open>The loops of \<^verbatim>\<open>bell_number\<close>\<close>

lemma bell_inner_step:
  assumes inv: "bell_partial N (Suc i) m tbl" and iN: "Suc i \<le> N" and mi: "m \<le> i"
  shows "\<exists>tbl'. bell_inner (int (Suc i)) (int (Suc m)) tbl = Inr tbl' \<and>
                bell_partial N (Suc i) (Suc m) tbl'"
proof -
  from inv have sh: "shape N tbl" by (simp add: bell_partial_def)
  have e1: "int (Suc i) - 1 = int i" and e2: "int (Suc m) - 1 = int m" by simp_all
  have g1: "get_cell tbl (int i) (int m) = Inr (tbl ! i ! m)"
    using sh iN mi by (intro get_cell_nat[where N=N]) auto
  have g2: "get_cell tbl (int (Suc i)) (int m) = Inr (tbl ! Suc i ! m)"
    using sh iN mi by (intro get_cell_nat[where N=N]) auto
  have s: "set_cell tbl (int (Suc i)) (int (Suc m)) v = Inr (upd tbl (Suc i) (Suc m) v)" for v
    using sh iN mi by (intro set_cell_nat[where N=N]) auto
  define tbl' where "tbl' = upd tbl (Suc i) (Suc m) (tbl ! i ! m + tbl ! Suc i ! m)"
  have run: "bell_inner (int (Suc i)) (int (Suc m)) tbl = Inr tbl'"
    by (simp only: bell_inner_def e1 e2 g1 g2 s and_then_Inr tbl'_def)
  have old1: "tbl ! i ! m = int (bell_triangle i m)"
    using inv mi by (simp add: bell_partial_def)
  have old2: "tbl ! Suc i ! m = int (bell_triangle (Suc i) m)"
    using inv by (simp add: bell_partial_def)
  have new: "tbl ! i ! m + tbl ! Suc i ! m = int (bell_triangle (Suc i) (Suc m))"
    by (simp add: old1 old2)
  have nth: "tbl' ! r ! c = (if r = Suc i \<and> c = Suc m then int (bell_triangle (Suc i) (Suc m)) else tbl ! r ! c)"
    if "r \<le> N" "c \<le> N" for r c
    unfolding tbl'_def new using sh iN mi that by (intro nth_upd[where N=N]) auto
  have "bell_partial N (Suc i) (Suc m) tbl'"
    unfolding bell_partial_def
  proof (intro conjI allI impI)
    show "shape N tbl'" unfolding tbl'_def using sh by (rule shape_upd)
  next
    fix r c assume "r < Suc i" "c \<le> r"
    then show "tbl' ! r ! c = int (bell_triangle r c)"
      using nth[of r c] iN inv by (simp add: bell_partial_def)
  next
    fix c assume "c \<le> Suc m"
    then show "tbl' ! Suc i ! c = int (bell_triangle (Suc i) c)"
      using nth[of "Suc i" c] iN mi inv by (auto simp: bell_partial_def le_Suc_eq)
  qed
  with run show ?thesis by blast
qed

lemma bell_inner_loop:
  assumes inv: "bell_partial N (Suc i) 0 tbl" and iN: "Suc i \<le> N"
  shows "m \<le> Suc i \<Longrightarrow>
         \<exists>tbl'. for_each (map int [1..<Suc m]) (bell_inner (int (Suc i))) tbl = Inr tbl' \<and>
                bell_partial N (Suc i) m tbl'"
proof (induction m)
  case 0
  with inv show ?case by simp
next
  case (Suc m)
  then obtain t1 where t1: "for_each (map int [1..<Suc m]) (bell_inner (int (Suc i))) tbl = Inr t1"
    and inv1: "bell_partial N (Suc i) m t1" by auto
  from Suc.prems have mi: "m \<le> i" by simp
  from bell_inner_step[OF inv1 iN mi] obtain t2
    where t2: "bell_inner (int (Suc i)) (int (Suc m)) t1 = Inr t2"
      and inv2: "bell_partial N (Suc i) (Suc m) t2" by blast
  have "map int [1..<Suc (Suc m)] = map int [1..<Suc m] @ [int (Suc m)]" by simp
  then have "for_each (map int [1..<Suc (Suc m)]) (bell_inner (int (Suc i))) tbl = Inr t2"
    by (simp only: for_each_snoc t1 and_then_Inr t2)
  with inv2 show ?case by blast
qed

lemma bell_outer_step:
  assumes inv: "bell_rows N i tbl" and iN: "Suc i \<le> N"
  shows "\<exists>tbl'. bell_outer (int (Suc i)) tbl = Inr tbl' \<and> bell_rows N (Suc i) tbl'"
proof -
  from inv have sh: "shape N tbl" by (simp add: bell_rows_def)
  have e1: "int (Suc i) - 1 = int i" by simp
  have g: "get_cell tbl (int i) (int i) = Inr (tbl ! i ! i)"
    using sh iN by (intro get_cell_nat[where N=N]) auto
  have s: "set_cell tbl (int (Suc i)) (int 0) v = Inr (upd tbl (Suc i) 0 v)" for v
    using sh iN by (intro set_cell_nat[where N=N]) auto
  define t0 where "t0 = upd tbl (Suc i) 0 (tbl ! i ! i)"
  have nth: "t0 ! r ! c = (if r = Suc i \<and> c = 0 then tbl ! i ! i else tbl ! r ! c)"
    if "r \<le> N" "c \<le> N" for r c
    unfolding t0_def using sh iN that by (intro nth_upd[where N=N]) auto
  have "tbl ! i ! i = int (bell_triangle (Suc i) 0)"
    using inv by (simp add: bell_rows_def)
  then have inv0: "bell_partial N (Suc i) 0 t0"
    using nth[of _ _] inv iN sh by (auto simp: bell_partial_def bell_rows_def t0_def shape_upd)
  from bell_inner_loop[OF inv0 iN, of "Suc i"] obtain t1
    where t1: "for_each (map int [1..<Suc (Suc i)]) (bell_inner (int (Suc i))) t0 = Inr t1"
      and inv1: "bell_partial N (Suc i) (Suc i) t1" by auto
  have r: "range_py 1 (int (Suc i) + 1) = map int [1..<Suc (Suc i)]"
    by (rule range_py_Suc)
  have "bell_outer (int (Suc i)) tbl = Inr t1"
    using s[of "tbl ! i ! i"]
    by (simp only: bell_outer_def e1 g and_then_Inr of_nat_0 t0_def[symmetric] r t1)
  moreover have "bell_rows N (Suc i) t1"
    using inv1 by (auto simp: bell_rows_def bell_partial_def le_Suc_eq)
  ultimately show ?thesis by blast
qed

lemma bell_outer_loop:
  assumes inv: "bell_rows N 0 tbl"
  shows "k \<le> N \<Longrightarrow>
         \<exists>tbl'. for_each (map int [1..<Suc k]) bell_outer tbl = Inr tbl' \<and> bell_rows N k tbl'"
proof (induction k)
  case 0
  with inv show ?case by simp
next
  case (Suc k)
  then obtain t1 where t1: "for_each (map int [1..<Suc k]) bell_outer tbl = Inr t1"
    and inv1: "bell_rows N k t1" by auto
  from bell_outer_step[OF inv1 Suc.prems] obtain t2
    where t2: "bell_outer (int (Suc k)) t1 = Inr t2" and inv2: "bell_rows N (Suc k) t2" by blast
  have "map int [1..<Suc (Suc k)] = map int [1..<Suc k] @ [int (Suc k)]" by simp
  then have "for_each (map int [1..<Suc (Suc k)]) bell_outer tbl = Inr t2"
    by (simp only: for_each_snoc t1 and_then_Inr t2)
  with inv2 show ?case by blast
qed

lemma bell_number_nat: "bell_number (int N) = Inr (int (bell_triangle N 0))"
proof (cases N)
  case 0
  then show ?thesis by (simp add: bell_number_def)
next
  case (Suc N')
  define t0 where "t0 = upd (zeros (int N)) 0 0 (1::int)"
  have s: "set_cell (zeros (int N)) (int 0) (int 0) 1 = Inr t0"
    unfolding t0_def using shape_zeros[of N] by (intro set_cell_nat[where N=N]) auto
  have nth: "t0 ! r ! c = (if r = 0 \<and> c = 0 then 1 else zeros (int N) ! r ! c)"
    if "r \<le> N" "c \<le> N" for r c
    unfolding t0_def using shape_zeros[of N] that by (intro nth_upd[where N=N]) auto
  have inv0: "bell_rows N 0 t0"
    using nth[of 0 0] by (simp add: bell_rows_def t0_def shape_upd shape_zeros)
  from bell_outer_loop[OF inv0, of N] obtain t1
    where t1: "for_each (map int [1..<Suc N]) bell_outer t0 = Inr t1"
      and inv1: "bell_rows N N t1" by auto
  have r: "range_py 1 (int N + 1) = map int [1..<Suc N]" by (rule range_py_Suc)
  have g: "get_cell t1 (int N) (int 0) = Inr (t1 ! N ! 0)"
    using inv1 by (intro get_cell_nat[where N=N]) (auto simp: bell_rows_def)
  have v: "t1 ! N ! 0 = int (bell_triangle N 0)"
    using inv1 by (simp add: bell_rows_def)
  have pos: "\<not> int N < 0" "int N \<noteq> 0" using Suc by simp_all
  have "bell_number (int N) = 
        and_then (set_cell (zeros (int N)) 0 0 1) (\<lambda>bell.
        and_then (for_each (range_py 1 (int N + 1)) bell_outer bell) (\<lambda>bell'.
        get_cell bell' (int N) 0))"
    using pos by (simp only: bell_number_def if_False)
  also have "\<dots> = Inr (int (bell_triangle N 0))"
    using s g by (simp only: of_nat_0 and_then_Inr r t1 v)
  finally show ?thesis .
qed

subsection \<open>The loops of \<^verbatim>\<open>bell_number_sum\<close>\<close>

lemma stirling_inner_step:
  assumes inv: "stirling_partial N (Suc i) m tbl" and iN: "Suc i \<le> N" and mi: "m \<le> i"
  shows "\<exists>tbl'. stirling_inner (int (Suc i)) (int (Suc m)) tbl = Inr tbl' \<and>
                stirling_partial N (Suc i) (Suc m) tbl'"
proof -
  from inv have sh: "shape N tbl" by (simp add: stirling_partial_def)
  from inv have old: "tbl ! r ! c = (if r < Suc i \<or> (r = Suc i \<and> c \<le> m) then int (stirling2 r c) else 0)"
    if "r \<le> N" "c \<le> N" for r c
    using that by (simp add: stirling_partial_def)
  have e1: "int (Suc i) - 1 = int i" and e2: "int (Suc m) - 1 = int m" by simp_all
  have g1: "get_cell tbl (int i) (int (Suc m)) = Inr (tbl ! i ! Suc m)"
    using sh iN mi by (intro get_cell_nat[where N=N]) auto
  have g2: "get_cell tbl (int i) (int m) = Inr (tbl ! i ! m)"
    using sh iN mi by (intro get_cell_nat[where N=N]) auto
  have s: "set_cell tbl (int (Suc i)) (int (Suc m)) v = Inr (upd tbl (Suc i) (Suc m) v)" for v
    using sh iN mi by (intro set_cell_nat[where N=N]) auto
  define tbl' where "tbl' = upd tbl (Suc i) (Suc m) (int (Suc m) * tbl ! i ! Suc m + tbl ! i ! m)"
  have run: "stirling_inner (int (Suc i)) (int (Suc m)) tbl = Inr tbl'"
    by (simp only: stirling_inner_def e1 e2 g1 g2 s and_then_Inr tbl'_def)
  have old1: "tbl ! i ! Suc m = int (stirling2 i (Suc m))"
    using old[of i "Suc m"] iN mi by simp
  have old2: "tbl ! i ! m = int (stirling2 i m)"
    using old[of i m] iN mi by simp
  have new: "int (Suc m) * tbl ! i ! Suc m + tbl ! i ! m = int (stirling2 (Suc i) (Suc m))"
    unfolding old1 old2 by (simp add: algebra_simps)
  have nth: "tbl' ! r ! c = (if r = Suc i \<and> c = Suc m then int (stirling2 (Suc i) (Suc m)) else tbl ! r ! c)"
    if "r \<le> N" "c \<le> N" for r c
    unfolding tbl'_def new using sh iN mi that by (intro nth_upd[where N=N]) auto
  have "stirling_partial N (Suc i) (Suc m) tbl'"
    unfolding stirling_partial_def
  proof (intro conjI allI impI)
    show "shape N tbl'" unfolding tbl'_def using sh by (rule shape_upd)
  next
    fix r c assume rc: "r \<le> N" "c \<le> N"
    show "tbl' ! r ! c = (if r < Suc i \<or> (r = Suc i \<and> c \<le> Suc m) then int (stirling2 r c) else 0)"
      using nth[OF rc] old[OF rc] by (auto simp: le_Suc_eq)
  qed
  with run show ?thesis by blast
qed

lemma stirling_inner_loop:
  assumes inv: "stirling_partial N (Suc i) 0 tbl" and iN: "Suc i \<le> N"
  shows "m \<le> Suc i \<Longrightarrow>
         \<exists>tbl'. for_each (map int [1..<Suc m]) (stirling_inner (int (Suc i))) tbl = Inr tbl' \<and>
                stirling_partial N (Suc i) m tbl'"
proof (induction m)
  case 0
  with inv show ?case by simp
next
  case (Suc m)
  then obtain t1 where t1: "for_each (map int [1..<Suc m]) (stirling_inner (int (Suc i))) tbl = Inr t1"
    and inv1: "stirling_partial N (Suc i) m t1" by auto
  from Suc.prems have mi: "m \<le> i" by simp
  from stirling_inner_step[OF inv1 iN mi] obtain t2
    where t2: "stirling_inner (int (Suc i)) (int (Suc m)) t1 = Inr t2"
      and inv2: "stirling_partial N (Suc i) (Suc m) t2" by blast
  have "map int [1..<Suc (Suc m)] = map int [1..<Suc m] @ [int (Suc m)]" by simp
  then have "for_each (map int [1..<Suc (Suc m)]) (stirling_inner (int (Suc i))) tbl = Inr t2"
    by (simp only: for_each_snoc t1 and_then_Inr t2)
  with inv2 show ?case by blast
qed

lemma stirling_outer_step:
  assumes inv: "stirling_rows N i tbl" and iN: "Suc i \<le> N"
  shows "\<exists>tbl'. stirling_outer (int (Suc i)) tbl = Inr tbl' \<and> stirling_rows N (Suc i) tbl'"
proof -
  have inv0: "stirling_partial N (Suc i) 0 tbl"
    using inv by (auto simp: stirling_rows_def stirling_partial_def)
  from stirling_inner_loop[OF inv0 iN, of "Suc i"] obtain t1
    where t1: "for_each (map int [1..<Suc (Suc i)]) (stirling_inner (int (Suc i))) tbl = Inr t1"
      and inv1: "stirling_partial N (Suc i) (Suc i) t1" by auto
  have r: "range_py 1 (int (Suc i) + 1) = map int [1..<Suc (Suc i)]"
    by (rule range_py_Suc)
  have "stirling_outer (int (Suc i)) tbl = Inr t1"
    by (simp only: stirling_outer_def r t1)
  moreover have "stirling_rows N (Suc i) t1"
    using inv1 by (auto simp: stirling_rows_def stirling_partial_def stirling2_above le_Suc_eq)
  ultimately show ?thesis by blast
qed

lemma stirling_outer_loop:
  assumes inv: "stirling_rows N 0 tbl"
  shows "k \<le> N \<Longrightarrow>
         \<exists>tbl'. for_each (map int [1..<Suc k]) stirling_outer tbl = Inr tbl' \<and> stirling_rows N k tbl'"
proof (induction k)
  case 0
  with inv show ?case by simp
next
  case (Suc k)
  then obtain t1 where t1: "for_each (map int [1..<Suc k]) stirling_outer tbl = Inr t1"
    and inv1: "stirling_rows N k t1" by auto
  from stirling_outer_step[OF inv1 Suc.prems] obtain t2
    where t2: "stirling_outer (int (Suc k)) t1 = Inr t2" and inv2: "stirling_rows N (Suc k) t2" by blast
  have "map int [1..<Suc (Suc k)] = map int [1..<Suc k] @ [int (Suc k)]" by simp
  then have "for_each (map int [1..<Suc (Suc k)]) stirling_outer tbl = Inr t2"
    by (simp only: for_each_snoc t1 and_then_Inr t2)
  with inv2 show ?case by blast
qed

lemma stirling_base_zeros: "i \<le> N \<Longrightarrow> stirling_base (int i) (zeros (int N)) = Inr (zeros (int N))"
proof -
  assume iN: "i \<le> N"
  have s1: "set_cell (zeros (int N)) (int i) (int 0) 0 = Inr (upd (zeros (int N)) i 0 0)"
    using shape_zeros[of N] iN by (intro set_cell_nat[where N=N]) auto
  have s2: "set_cell (zeros (int N)) (int 0) (int i) 0 = Inr (upd (zeros (int N)) 0 i 0)"
    using shape_zeros[of N] iN by (intro set_cell_nat[where N=N]) auto
  have u1: "upd (zeros (int N)) i 0 0 = zeros (int N)"
    using iN by (intro upd_same nth_zeros) auto
  have u2: "upd (zeros (int N)) 0 i 0 = zeros (int N)"
    using iN by (intro upd_same nth_zeros) auto
  show ?thesis
    using s1 s2 by (simp only: stirling_base_def of_nat_0 u1 u2 and_then_Inr)
qed

lemma stirling_base_loop:
  "k \<le> Suc N \<Longrightarrow> for_each (map int [0..<k]) stirling_base (zeros (int N)) = Inr (zeros (int N))"
proof (induction k)
  case 0
  show ?case by simp
next
  case (Suc k)
  then have IH: "for_each (map int [0..<k]) stirling_base (zeros (int N)) = Inr (zeros (int N))"
    by simp
  have "map int [0..<Suc k] = map int [0..<k] @ [int k]" by simp
  then show ?case
    using Suc.prems by (simp only: for_each_snoc IH and_then_Inr stirling_base_zeros)
qed

lemma bell_number_sum_nat: "bell_number_sum (int N) = Inr (int (stirling_sum N))"
proof (cases N)
  case 0
  then show ?thesis by (simp add: bell_number_sum_def stirling_sum_def)
next
  case (Suc N')
  have r0: "range_py 0 (int N + 1) = map int [0..<Suc N]" by (rule range_py_zero)
  have r1: "range_py 1 (int N + 1) = map int [1..<Suc N]" by (rule range_py_Suc)
  have b: "for_each (map int [0..<Suc N]) stirling_base (zeros (int N)) = Inr (zeros (int N))"
    by (rule stirling_base_loop) simp
  define t0 where "t0 = upd (zeros (int N)) 0 0 (1::int)"
  have s: "set_cell (zeros (int N)) (int 0) (int 0) 1 = Inr t0"
    unfolding t0_def using shape_zeros[of N] by (intro set_cell_nat[where N=N]) auto
  have nth: "t0 ! r ! c = (if r = 0 \<and> c = 0 then 1 else 0)" if "r \<le> N" "c \<le> N" for r c
  proof -
    have "t0 ! r ! c = (if r = 0 \<and> c = 0 then 1 else zeros (int N) ! r ! c)"
      unfolding t0_def using shape_zeros[of N] that by (intro nth_upd[where N=N]) auto
    with that show ?thesis by (simp add: nth_zeros)
  qed
  have first_row: "int (stirling2 0 c) = (if c = 0 then 1 else 0)" for c
    by (cases c) simp_all
  have inv0: "stirling_rows N 0 t0"
    unfolding stirling_rows_def
  proof (intro conjI allI impI)
    show "shape N t0" unfolding t0_def by (intro shape_upd shape_zeros)
  next
    fix r c assume rc: "r \<le> N" "c \<le> N"
    show "t0 ! r ! c = (if r \<le> 0 then int (stirling2 r c) else 0)"
      using nth[OF rc] by (simp add: first_row)
  qed
  from stirling_outer_loop[OF inv0, of N] obtain t1
    where t1: "for_each (map int [1..<Suc N]) stirling_outer t0 = Inr t1"
      and inv1: "stirling_rows N N t1" by auto
  from inv1 have len: "length t1 = Suc N" and lenN: "length (t1 ! N) = Suc N"
    by (simp_all add: stirling_rows_def shape_def)
  have g: "getitem t1 (int N) = Inr (t1 ! N)"
    using len by (intro getitem_nat) simp
  have "sum_list (t1 ! N) = (\<Sum>c = 0..<Suc N. t1 ! N ! c)"
    using lenN by (simp only: sum_list_sum_nth)
  also have "\<dots> = (\<Sum>c = 0..<Suc N. int (stirling2 N c))"
    using inv1 by (intro sum.cong refl) (simp add: stirling_rows_def)
  also have "\<dots> = int (stirling_sum N)"
  proof -
    have "{0..<Suc N} = {..N}" by auto
    then show ?thesis by (simp add: stirling_sum_def)
  qed
  finally have total: "sum_list (t1 ! N) = int (stirling_sum N)" .
  have pos: "\<not> int N < 0" "int N \<noteq> 0" using Suc by simp_all
  have "bell_number_sum (int N) =
        and_then (for_each (range_py 0 (int N + 1)) stirling_base (zeros (int N))) (\<lambda>s1.
        and_then (set_cell s1 0 0 1) (\<lambda>s2.
        and_then (for_each (range_py 1 (int N + 1)) stirling_outer s2) (\<lambda>s3.
        and_then (getitem s3 (int N)) (\<lambda>row.
        Inr (sum_list row)))))"
    using pos by (simp only: bell_number_sum_def if_False)
  also have "\<dots> = Inr (int (stirling_sum N))"
    using s by (simp only: of_nat_0 r0 r1 b and_then_Inr t1 g total)
  finally show ?thesis .
qed


subsection \<open>Agreement of the two functions\<close>

text \<open>
  Claim C10. For every integer \<open>n \<ge> 0\<close>, \<^verbatim>\<open>bell_number(n)\<close> and \<^verbatim>\<open>bell_number_sum(n)\<close>
  both return, without raising, and return the same number.
\<close>

theorem bell_number_agree:
  "0 \<le> n \<Longrightarrow> \<exists>b. bell_number n = Inr b \<and> bell_number_sum n = Inr b"
proof -
  assume "0 \<le> n"
  then have n: "n = int (nat n)" by simp
  have "bell_number (int (nat n)) = Inr (int (stirling_sum (nat n)))"
    by (simp only: bell_number_nat bell_triangle_first)
  moreover have "bell_number_sum (int (nat n)) = Inr (int (stirling_sum (nat n)))"
    by (rule bell_number_sum_nat)
  ultimately show ?thesis using n by metis
qed

theorem bell_number_agree_witness:
  "(0::int) \<le> 4 \<and> bell_number 4 = Inr 15 \<and> bell_number_sum 4 = Inr 15"
proof -
  have b: "bell_number 4 = Inr 15" by code_simp
  from bell_number_agree[of 4] b show ?thesis by auto
qed

end
